theory Spec2Isabelle
  imports Main "HOL-Library.Monad_Syntax" "HOL-Library.Log_Nat"
begin

text \<open>
  A shallow embedding of \<^verbatim>\<open>src/fastegs/egs.c\<close>: the smooth-factorization tables built
  by \<^verbatim>\<open>setup\<close>, the capacity helpers \<^verbatim>\<open>fcnt\<close> and \<^verbatim>\<open>fcnti\<close>, the factorization
  certificate (\<^verbatim>\<open>fac_extend\<close>, \<^verbatim>\<open>fac_verify\<close>), the counter \<^verbatim>\<open>tfac\<close> in both modes,
  and the search \<^verbatim>\<open>tbound\<close> up to its non-exhaustive return.

  Conventions.
  \<^item> A result is an \<open>option\<close>: \<open>None\<close> stands for every way in which the C program does
    not return normally (a failed \<^verbatim>\<open>assert\<close>, a division by zero, a read or write
    outside an array, a loop that never ends).
  \<^item> \<^verbatim>\<open>int64_t\<close> values are \<open>int\<close>, indices are \<open>nat\<close>.  The source argues in its comments
    that for \<open>N < 2^48\<close> no product leaves 64 bits; the model computes in unbounded
    integers and does not re-check that.
  \<^item> A pointer \<^verbatim>\<open>struct pp *f\<close> to a zero-terminated factorization is the list of the
    entries before the terminator.
\<close>

section \<open>Control flow\<close>

text \<open>
  A \<^verbatim>\<open>while\<close> or \<^verbatim>\<open>for\<close> loop is \<open>while_opt step s\<close>: \<open>step\<close> maps the loop state to
  \<open>Next s'\<close> (run the body, go on), to \<open>Done r\<close> (the condition fails, or a \<^verbatim>\<open>break\<close>) or to
  \<open>None\<close> (the body aborts).  A loop that never ends has the value \<open>None\<close>.
\<close>

datatype ('s, 'r) ctl = Next 's | Done 'r

partial_function (option) while_opt :: "('s \<Rightarrow> ('s, 'r) ctl option) \<Rightarrow> 's \<Rightarrow> 'r option" where
  "while_opt step s =
     (case step s of None \<Rightarrow> None | Some (Next s') \<Rightarrow> while_opt step s' | Some (Done r) \<Rightarrow> Some r)"

declare while_opt.simps [code]

text \<open>A \<^verbatim>\<open>for\<close> loop over a fixed range whose body may abort.\<close>

fun fold_opt :: "('a \<Rightarrow> 's \<Rightarrow> 's option) \<Rightarrow> 'a list \<Rightarrow> 's \<Rightarrow> 's option" where
  "fold_opt g [] s = Some s"
| "fold_opt g (x # xs) s = (case g x s of None \<Rightarrow> None | Some s' \<Rightarrow> fold_opt g xs s')"

fun filter_opt :: "('a \<Rightarrow> bool option) \<Rightarrow> 'a list \<Rightarrow> 'a list option" where
  "filter_opt g [] = Some []"
| "filter_opt g (x # xs) =
     (case g x of None \<Rightarrow> None
      | Some b \<Rightarrow> (case filter_opt g xs of None \<Rightarrow> None
                    | Some ys \<Rightarrow> Some (if b then x # ys else ys)))"

definition assert_o :: "bool \<Rightarrow> unit option" where
  "assert_o b = (if b then Some () else None)"

text \<open>An array read \<^verbatim>\<open>xs[i]\<close>; outside the array the behaviour is undefined.\<close>

definition nth_opt :: "'a list \<Rightarrow> int \<Rightarrow> 'a option" where
  "nth_opt xs i = (if 0 \<le> i \<and> i < int (length xs) then Some (xs ! nat i) else None)"

text \<open>
  Division on \<^verbatim>\<open>int64_t\<close> truncates towards zero; a zero divisor is a crash.
  \<^verbatim>\<open>cdiv(a,b)\<close> is \<^verbatim>\<open>(a+b-1) / b\<close>.
\<close>

definition c_div :: "int \<Rightarrow> int \<Rightarrow> int" where
  "c_div a b = (if (a < 0) = (b < 0) then \<bar>a\<bar> div \<bar>b\<bar> else - (\<bar>a\<bar> div \<bar>b\<bar>))"

definition divo :: "int \<Rightarrow> int \<Rightarrow> int option" where
  "divo a b = (if b = 0 then None else Some (c_div a b))"

definition cdiv :: "int \<Rightarrow> int \<Rightarrow> int option" where
  "cdiv a b = divo (a + b - 1) b"

text \<open>
  \<^verbatim>\<open>(int64_t)sqrt(n)\<close>: for \<open>0 \<le> n < 2^52\<close> the correctly rounded double square root,
  truncated, is the integer square root.
\<close>

fun isqrt :: "nat \<Rightarrow> nat" where
  "isqrt n = (if n < 4 then (if n = 0 then 0 else 1)
              else (let r = 2 * isqrt (n div 4) in if (r + 1) * (r + 1) \<le> n then r + 1 else r))"

definition c_sqrt :: "int \<Rightarrow> int" where
  "c_sqrt n = int (isqrt (nat n))"

text \<open>
  \<^verbatim>\<open>(int64_t)pow(t, a/b)\<close> for the two exponents the source uses, \<open>0.625 = 5/8\<close> and
  \<^verbatim>\<open>MCUTOFF\<close> \<open>= 0.225 = 9/40\<close>: the largest \<open>k\<close> with \<open>k^b \<le> t^a\<close>.  This is the value of
  the C expression wherever \<open>t^(a/b)\<close> is not within a rounding error of an integer.
\<close>

definition pow_floor :: "int \<Rightarrow> nat \<Rightarrow> nat \<Rightarrow> int option" where
  "pow_floor t a b =
     while_opt (\<lambda>k. if (k + 1) ^ b \<le> t ^ a then Some (Next (k + 1)) else Some (Done k)) 0"

section \<open>The prime libraries\<close>

text \<open>
  \<^verbatim>\<open>primesieve\<close> and \<^verbatim>\<open>primecount\<close> are external and taken to be correct: the iterator
  returns the primes from its start value on, in ascending order, and
  \<^verbatim>\<open>primecount_pi(n)\<close> is the number of primes up to \<open>n\<close>.  The state of an iterator is
  the next candidate.
\<close>

definition is_prime :: "nat \<Rightarrow> bool" where
  "is_prime p = (1 < p \<and> list_all (\<lambda>d. \<not> d dvd p) [2..<p])"

definition primes_upto :: "nat \<Rightarrow> nat list" where
  "primes_upto n = filter is_prime [0..<Suc n]"

definition prime_pi :: "int \<Rightarrow> nat" where
  "prime_pi n = length (primes_upto (nat n))"

definition next_prime :: "nat \<Rightarrow> nat option" where
  "next_prime n = while_opt (\<lambda>k. if is_prime k then Some (Done k) else Some (Next (Suc k))) n"

section \<open>The tables and \<^verbatim>\<open>setup\<close>\<close>

text \<open>
  A prime power of a factorization, \<^verbatim>\<open>struct pp { unsigned pi : 24; unsigned e : 8; }\<close>:
  \<open>pp_pi\<close> is an index into the prime table, \<open>pp_e\<close> the exponent.  A factorization is a
  run of such entries ended by an entry with \<open>pp_pi = 0\<close>.  The bit widths are not
  modelled: \<^verbatim>\<open>setup\<close> asserts \<open>MAXPI < 2^24\<close>, and an exponent of 256 needs a number
  beyond \<open>2^256\<close>.
\<close>

datatype pp = PP (pp_pi: nat) (pp_e: nat)

text \<open>
  The global tables: \<open>P_tab\<close> (\<^verbatim>\<open>P\<close>, the primes, with \<^verbatim>\<open>P[0] = 1\<close>), \<open>PI_tab\<close> (\<^verbatim>\<open>PI\<close>, the
  prime counts), \<open>F_tab\<close> (\<^verbatim>\<open>F\<close>, the arena of factorizations), \<open>M_tab\<close> (\<^verbatim>\<open>M\<close>, the offset
  of the factorization of \<open>m\<close> in the arena, 0 when \<open>m\<close> has none), and the three bounds.
\<close>

record tables =
  P_tab :: "nat list"
  PI_tab :: "nat list"
  F_tab :: "pp list"
  M_tab :: "nat list"
  MAXP :: nat
  MAXPI :: nat
  MAXM :: nat

text \<open>The initial values of \<^verbatim>\<open>MAXP\<close>, \<^verbatim>\<open>MAXPI\<close>, \<^verbatim>\<open>MAXM\<close> and the constant \<^verbatim>\<open>MAXN\<close>.\<close>

definition MAXP0 :: int where "MAXP0 = 310248233"
definition MAXPI0 :: int where "MAXPI0 = 2 ^ 24 - 1"
definition MAXM0 :: int where "MAXM0 = 2147483647"
definition MAXN :: int where "MAXN = 2 ^ 48 - 1"

text \<open>The factorization that starts at offset \<open>off\<close> of the arena: \<^verbatim>\<open>F + off\<close>.\<close>

definition fact_at :: "pp list \<Rightarrow> nat \<Rightarrow> pp list" where
  "fact_at F off = takeWhile (\<lambda>x. pp_pi x \<noteq> 0) (drop off F)"

text \<open>
  The sieve (line 96):
  \<^verbatim>\<open>for ( pi = 1 ; pi <= MAXPI ; pi++ ) for ( p=P[pi], q = p ; q <= maxm ; q+=p ) M[q] = pi;\<close>
  After it \<open>M[q]\<close> is the index of the largest prime up to \<^verbatim>\<open>MAXP\<close> that divides \<open>q\<close>.
  The counter \<open>q\<close> is an \<^verbatim>\<open>int32_t\<close>: where \<open>q += p\<close> would pass \<open>2^31 - 1\<close> the behaviour is
  undefined (\<open>sieve_overflow\<close>).
\<close>

definition mark_multiples :: "nat \<Rightarrow> nat \<Rightarrow> nat \<Rightarrow> nat list \<Rightarrow> nat list" where
  "mark_multiples maxm i p M = fold (\<lambda>k M. M[k * p := i]) [1..<Suc (maxm div p)] M"

definition sieve_M :: "nat \<Rightarrow> nat list \<Rightarrow> nat list" where
  "sieve_M maxm P =
     fold (\<lambda>i M. mark_multiples maxm i (P ! i) M) [1..<length P] (replicate (Suc maxm) 0)"

definition sieve_overflow :: "nat \<Rightarrow> nat list \<Rightarrow> bool" where
  "sieve_overflow maxm primes = list_ex (\<lambda>p. (2::int) ^ 31 \<le> int ((maxm div p) * p + p)) primes"

text \<open>
  The factorization of an odd \<open>m\<close> (lines 108--117).  The entries are written behind the
  end \<open>f\<close> of the arena and are kept only if \<open>m\<close> turns out smooth; the model builds them
  in a list \<open>g\<close>, last entry first, and appends them then.
  \<^verbatim>\<open>for ( ; M[q] ; q /= P[M[q]] ) { if ( M[q] == g->pi ) { g->e++; } else { (++g)->pi = M[q]; g->e = 1; } }\<close>
  A division by 0 is a crash and a division by 1 a loop without end: both are \<open>None\<close>.
\<close>

definition bump :: "nat \<Rightarrow> pp list \<Rightarrow> pp list" where
  "bump i g = (case g of [] \<Rightarrow> [PP i 1]
               | x # r \<Rightarrow> if pp_pi x = i then PP i (Suc (pp_e x)) # r else PP i 1 # x # r)"

function divide_out :: "nat list \<Rightarrow> nat list \<Rightarrow> nat \<Rightarrow> pp list \<Rightarrow> (nat \<times> pp list) option" where
  "divide_out M P q g =
     (if M ! q = 0 then Some (q, g)
      else if q = 0 \<or> P ! (M ! q) \<le> 1 then None
      else divide_out M P (q div P ! (M ! q)) (bump (M ! q) g))"
  by pat_completeness auto
termination
  by (relation "measure (\<lambda>(M, P, q, g). q)") auto

text \<open>The values of \<^verbatim>\<open>for ( m = m0 ; m > 1 ; m -= 2 )\<close>.\<close>

function down_by2 :: "nat \<Rightarrow> nat list" where
  "down_by2 m = (if 1 < m then m # down_by2 (m - 2) else [])"
  by pat_completeness auto
termination
  by (relation "measure id") auto

text \<open>
  One round of the loop over the odd \<open>m\<close>:
  \<^verbatim>\<open>g->pi = M[m]; g->e = 0; ... if (q!=1) { M[m] = 0; continue; } g++; (g++)->pi = 0; M[m] = f-F; f = g;\<close>
  The exponent field of a terminator is never written by the source; it is 0 here, and
  nothing reads it.
\<close>

definition odd_step :: "nat list \<Rightarrow> nat \<Rightarrow> pp list \<times> nat list \<Rightarrow> (pp list \<times> nat list) option" where
  "odd_step P m FM =
     (case FM of (F, M) \<Rightarrow>
       (case divide_out M P m [PP (M ! m) 0] of
          None \<Rightarrow> None
        | Some (q, g) \<Rightarrow>
            if q \<noteq> 1 then Some (F, M[m := 0])
            else Some (F @ rev g @ [PP 0 0], M[m := length F])))"

text \<open>\<^verbatim>\<open>v2(x) = __builtin_ctz(x)\<close>, the number of trailing zero bits.\<close>

function v2 :: "nat \<Rightarrow> nat" where
  "v2 m = (if m = 0 \<or> odd m then 0 else Suc (v2 (m div 2)))"
  by pat_completeness auto
termination
  by (relation "measure id") auto

text \<open>
  One round of the loop over the even \<open>m\<close> (lines 123--128): the factorization of the odd
  part is copied and the power of two is appended.
  \<^verbatim>\<open>e = v2(m), q = m>>e; if ( !M[q] ) { M[m] = 0; continue; } g = F+M[q]; M[m] = f-F;\<close>
  \<^verbatim>\<open>while (g->pi) *f++ = *g++; f->pi = 1; (f++)->e = e; (f++)->pi = 0;\<close>
\<close>

definition even_step :: "nat \<Rightarrow> pp list \<times> nat list \<Rightarrow> (pp list \<times> nat list) option" where
  "even_step m FM =
     (case FM of (F, M) \<Rightarrow>
        let e = v2 m; q = m div 2 ^ e in
        if M ! q = 0 then Some (F, M[m := 0])
        else Some (F @ fact_at F (M ! q) @ [PP 1 e, PP 0 0], M[m := length F]))"

text \<open>
  The prime count table (lines 84--90): \<^verbatim>\<open>PI[p] = n\<close> for the \<open>n\<close>-th prime, then
  \<^verbatim>\<open>for ( n = 1 ; n <= MAXP ; n++ ) if ( !PI[n] ) PI[n] = PI[n-1];\<close>
\<close>

definition build_PI :: "nat \<Rightarrow> nat list \<Rightarrow> nat list" where
  "build_PI maxp primes =
     (let PI0 = fold (\<lambda>(n, p) PI. PI[p := n]) (zip [1..<Suc (length primes)] primes)
                  (replicate (Suc maxp) 0)
      in fold (\<lambda>n PI. if PI ! n = 0 then PI[n := PI ! (n - 1)] else PI) [1..<Suc maxp] PI0)"

text \<open>
  \<^verbatim>\<open>setup(maxp, maxm)\<close>.  The assertions come first, in the order of the source; the
  comparison \<^verbatim>\<open>maxm < (uint64_t)MAXP*MAXP\<close> is unsigned, so both sides are taken modulo
  \<open>2^64\<close>; for \<open>maxp < -1\<close> the size of \<^verbatim>\<open>PI\<close> is negative and the allocation fails
  (below \<open>-2^31\<close> the conversion to the \<^verbatim>\<open>int32_t\<close> \<^verbatim>\<open>MAXP\<close> is not modelled either).  The
  growth of the arena by \<^verbatim>\<open>realloc\<close> has no effect on its contents and is left out.
  The name \<open>setup\<close> is a keyword of Isabelle, hence \<open>egs_setup\<close>.
\<close>

definition egs_setup :: "int \<Rightarrow> int \<Rightarrow> tables option" where
  "egs_setup maxp maxm0 =
     (if \<not> maxp \<le> MAXP0 then None
      else if \<not> int (prime_pi maxp) \<le> MAXPI0 then None
      else let maxm = (if even maxm0 then maxm0 + 1 else maxm0) in
      if \<not> maxm \<le> MAXM0 then None
      else if \<not> maxm mod 2 ^ 64 < ((maxp mod 2 ^ 64) * (maxp mod 2 ^ 64)) mod 2 ^ 64 then None
      else if maxp < - 1 \<or> maxm < 0 then None
      else
        let primes = primes_upto (nat maxp);
            P = 1 # primes;
            PI = build_PI (nat maxp) primes
        in if sieve_overflow (nat maxm) primes then None
        else
          (case fold_opt (odd_step P) (down_by2 (nat maxm)) ([PP 0 0], sieve_M (nat maxm) P) of
             None \<Rightarrow> None
           | Some (F1, M1) \<Rightarrow>
              (case fold_opt even_step (down_by2 (nat maxm - 1))
                      (F1 @ [PP 0 0], M1[1 := length F1]) of
                 None \<Rightarrow> None
               | Some (F2, M2) \<Rightarrow>
                   if \<not> int (length F2) < 2 ^ 32 then None
                   else Some \<lparr>P_tab = P, PI_tab = PI, F_tab = F2, M_tab = M2,
                               MAXP = nat maxp, MAXPI = length primes, MAXM = nat maxm\<rparr>)))"

section \<open>Capacity of a valuation vector\<close>

text \<open>
  \<^verbatim>\<open>fcnt(E, e, f)\<close>: \<^verbatim>\<open>for ( ; f->pi ; f++ ) e = min(e,E[f->pi]/f->e); return e;\<close>
  The valuation vector \<open>E\<close> is a list indexed by prime index.  A read outside \<open>E\<close> and a
  division by a zero exponent are undefined in C and end the model with \<open>None\<close>.
\<close>

fun fcnt :: "int list \<Rightarrow> int \<Rightarrow> pp list \<Rightarrow> int option" where
  "fcnt E e [] = Some e"
| "fcnt E e (x # f) =
     (if pp_pi x < length E \<and> pp_e x \<noteq> 0
      then fcnt E (min e (c_div (E ! pp_pi x) (int (pp_e x)))) f
      else None)"

text \<open>
  \<^verbatim>\<open>fcnti(E, i, f)\<close>: the capacity for \<open>P[i]\<close> times the number factored by \<open>f\<close>; the
  first entry of \<open>f\<close> may be the prime \<open>i\<close> itself, which then counts once more:
  \<^verbatim>\<open>assert (f->pi <= i); e = i > f->pi ? E[i] : E[i]/(f->e+1);\<close>
  For an empty \<open>f\<close> the pointer stands on the terminator, whose index is 0.  The first
  assertion of the source (\<open>f\<close> lies in the arena) holds for every list read from the arena.
\<close>

definition fcnti :: "int list \<Rightarrow> nat \<Rightarrow> pp list \<Rightarrow> int option" where
  "fcnti E i f =
     (let fpi = (case f of [] \<Rightarrow> 0 | x # _ \<Rightarrow> pp_pi x);
          fe = (case f of [] \<Rightarrow> 0 | x # _ \<Rightarrow> pp_e x)
      in if \<not> fpi \<le> i \<or> \<not> i < length E then None
         else fcnt E (if fpi < i then E ! i else c_div (E ! i) (int fe + 1)) f)"

text \<open>
  The update that follows every use of a capacity in the source:
  \<^verbatim>\<open>for ( ; f->pi ; f++ ) E[f->pi] -= e*f->e;\<close>
  and, with the bounds of \<open>E\<close> checked, \<open>sub_fact_o\<close>; \<open>sub_at\<close> is \<^verbatim>\<open>E[i] -= d\<close>.
\<close>

definition sub_pp :: "int \<Rightarrow> pp \<Rightarrow> int list \<Rightarrow> int list" where
  "sub_pp e x E = E[pp_pi x := E ! pp_pi x - e * int (pp_e x)]"

definition sub_fact :: "int list \<Rightarrow> int \<Rightarrow> pp list \<Rightarrow> int list" where
  "sub_fact E e f = fold (sub_pp e) f E"

definition sub_fact_o :: "int list \<Rightarrow> int \<Rightarrow> pp list \<Rightarrow> int list option" where
  "sub_fact_o E e f = (if list_all (\<lambda>x. pp_pi x < length E) f then Some (sub_fact E e f) else None)"

definition sub_at :: "int list \<Rightarrow> nat \<Rightarrow> int \<Rightarrow> int list option" where
  "sub_at E i d = (if i < length E then Some (E[i := E ! i - d]) else None)"

section \<open>Reading the tables\<close>

text \<open>
  \<^verbatim>\<open>pi(n) = n <= MAXP ? PI[n] : primecount_pi(n)\<close>, \<^verbatim>\<open>P[i]\<close>, \<^verbatim>\<open>F[M[m]].pi\<close> and
  \<^verbatim>\<open>F+M[m]\<close>; a factorization is read up to its terminator, which has to exist.
\<close>

definition pi_fn :: "tables \<Rightarrow> int \<Rightarrow> int option" where
  "pi_fn T n = (if n \<le> int (MAXP T) then map_option int (nth_opt (PI_tab T) n)
                else Some (int (prime_pi n)))"

definition P_at :: "tables \<Rightarrow> nat \<Rightarrow> int option" where
  "P_at T i = map_option int (nth_opt (P_tab T) (int i))"

definition F_pi :: "tables \<Rightarrow> int \<Rightarrow> nat option" where
  "F_pi T m = do { off \<leftarrow> nth_opt (M_tab T) m; x \<leftarrow> nth_opt (F_tab T) (int off); Some (pp_pi x) }"

definition fact_of :: "tables \<Rightarrow> int \<Rightarrow> pp list option" where
  "fact_of T m = do {
     off \<leftarrow> nth_opt (M_tab T) m;
     if list_ex (\<lambda>x. pp_pi x = 0) (drop off (F_tab T)) then Some (fact_at (F_tab T) off) else None }"

text \<open>
  \<^verbatim>\<open>fac_s(t)\<close>: \<^verbatim>\<open>s = sqrt(t); assert(s*(s-1) < t); while ( s*(s-1) < t ) s++; assert (s <= MAXP);\<close>
\<close>

definition fac_s :: "tables \<Rightarrow> int \<Rightarrow> int option" where
  "fac_s T t = do {
     let s0 = c_sqrt t;
     _ \<leftarrow> assert_o (s0 * (s0 - 1) < t);
     s \<leftarrow> while_opt (\<lambda>s. if s * (s - 1) < t then Some (Next (s + 1)) else Some (Done s)) s0;
     _ \<leftarrow> assert_o (s \<le> int (MAXP T));
     Some s }"

text \<open>
  The valuations of \<open>N!\<close> (lines 291--292):
  \<^verbatim>\<open>for ( i = 1 ; i <= maxpi ; i++ ) for ( q = P[i] ; q <= N ; q *= P[i] ) E[i] += N/q;\<close>
\<close>

definition valuation :: "int \<Rightarrow> int \<Rightarrow> int option" where
  "valuation N p =
     while_opt (\<lambda>(q, acc). if q \<le> N then (case divo N q of None \<Rightarrow> None
                                              | Some d \<Rightarrow> Some (Next (q * p, acc + d)))
                            else Some (Done acc)) (p, 0)"

definition valuations :: "tables \<Rightarrow> int \<Rightarrow> nat \<Rightarrow> int list option" where
  "valuations T N maxpi =
     fold_opt (\<lambda>i E. do { p \<leftarrow> P_at T i; v \<leftarrow> valuation N p; Some (E[i := E ! i + v]) })
       [1..<Suc maxpi] (replicate (Suc maxpi) 0)"

section \<open>The certificate\<close>

text \<open>
  \<^verbatim>\<open>struct fac_item { int64_t n; int64_t m; struct pp f[12]; int64_t p; int64_t q; int64_t c; }\<close>:
  \<open>n\<close> factors \<open>m * p'\<close> for each prime \<open>p'\<close> in \<open>(p, q]\<close>, of which there are \<open>c\<close>.
  \<^verbatim>\<open>struct fac\<close> is the list of items with \<open>N\<close> and \<open>t\<close>; its capacity doubles when
  full, which is not modelled.
\<close>

datatype fac_item =
  Fac_item (fi_n: int) (fi_m: int) (fi_f: "pp list") (fi_p: int) (fi_q: int) (fi_c: int)

record fac =
  fac_L :: "fac_item list"
  fac_N :: int
  fac_t :: int

definition fac_alloc :: "int \<Rightarrow> int \<Rightarrow> fac" where
  "fac_alloc N t = \<lparr>fac_L = [], fac_N = N, fac_t = t\<rparr>"

text \<open>
  \<^verbatim>\<open>fac_extend\<close>: \<^verbatim>\<open>assert(m*(p+1) >= v->t);\<close> then the item is appended.  The
  factorization is copied with its terminator into \<^verbatim>\<open>f[12]\<close>: more than 11 entries
  overflow the item.
\<close>

definition fac_extend :: "fac \<Rightarrow> int \<Rightarrow> int \<Rightarrow> pp list \<Rightarrow> int \<Rightarrow> int \<Rightarrow> int \<Rightarrow> fac option" where
  "fac_extend v n m f p q c =
     (if \<not> m * (p + 1) \<ge> fac_t v then None
      else if \<not> length f < 12 then None
      else Some (v\<lparr>fac_L := fac_L v @ [Fac_item n m f p q c]\<rparr>))"

text \<open>\<^verbatim>\<open>fac_extend_mp(v,n,m,f,p) = fac_extend(v,n,m,f,p-1,p,1)\<close>\<close>

definition fac_extend_mp :: "fac \<Rightarrow> int \<Rightarrow> int \<Rightarrow> pp list \<Rightarrow> int \<Rightarrow> fac option" where
  "fac_extend_mp v n m f p = fac_extend v n m f (p - 1) p 1"

text \<open>
  \<^verbatim>\<open>fac_extend_mp2(v,n,m,f,i)\<close>: the factor \<open>m * P[i]^2\<close>, recorded as the cofactor
  \<open>m * P[i]\<close> with the prime \<open>P[i]\<close>.
  \<^verbatim>\<open>assert (i>f->pi && i <= MAXPI); struct pp h[16] = {{i, 1}} ...; fac_extend_mp(v,n,m*P[i],h,P[i]);\<close>
\<close>

definition fac_extend_mp2 :: "tables \<Rightarrow> fac \<Rightarrow> int \<Rightarrow> int \<Rightarrow> pp list \<Rightarrow> nat \<Rightarrow> fac option" where
  "fac_extend_mp2 T v n m f i = do {
     _ \<leftarrow> assert_o ((case f of [] \<Rightarrow> 0 | x # _ \<Rightarrow> pp_pi x) < i \<and> i \<le> MAXPI T);
     _ \<leftarrow> assert_o (length f < 15);
     p \<leftarrow> P_at T i;
     fac_extend_mp v n (m * p) (PP i 1 # f) p }"

text \<open>
  \<^verbatim>\<open>fac_extend_m(v,n,m,f)\<close>: the first prime of \<open>f\<close> is split off.
  \<^verbatim>\<open>p = P[f->pi]; f->e--; fac_extend_mp(v,n,m/p,f->e?f:f+1,p); f->e++;\<close>
\<close>

definition fac_extend_m :: "tables \<Rightarrow> fac \<Rightarrow> int \<Rightarrow> int \<Rightarrow> pp list \<Rightarrow> fac option" where
  "fac_extend_m T v n m c =
     (case c of [] \<Rightarrow> None
      | x # r \<Rightarrow> do {
          p \<leftarrow> P_at T (pp_pi x);
          mp \<leftarrow> divo m p;
          fac_extend_mp v n mp (if pp_e x - 1 \<noteq> 0 then PP (pp_pi x) (pp_e x - 1) # r else r) p })"

text \<open>
  The certificate of a call is \<open>None\<close> when \<^verbatim>\<open>verify\<close> is 0 (\<^verbatim>\<open>v = 0\<close>); \<open>opt_extend v g\<close> is
  \<^verbatim>\<open>if ( v ) g(v)\<close>.
\<close>

definition opt_extend :: "fac option \<Rightarrow> (fac \<Rightarrow> fac option) \<Rightarrow> fac option option" where
  "opt_extend v g = (case v of None \<Rightarrow> Some None | Some w \<Rightarrow> map_option Some (g w))"

section \<open>The counter \<^verbatim>\<open>tfac\<close>, first phase\<close>

text \<open>
  The candidate list (lines 300--306):
  \<^verbatim>\<open>Ms[0] = 0; for ( m = 1 ; m < s ; m++ ) Ms[m] = m; numm = s;\<close>
  \<^verbatim>\<open>for ( m = s ; m <= maxm ; m++ ) if ( F[M[m]].pi && F[M[m]].pi <= (fast ? PI[t/m] : maxpi) ) Ms[numm++] = m;\<close>
  The buffer has \<open>maxm + 1\<close> entries, so \<open>s - 1 \<le> maxm\<close> is needed for the first loop.
\<close>

definition build_Ms :: "tables \<Rightarrow> int \<Rightarrow> bool \<Rightarrow> int \<Rightarrow> nat \<Rightarrow> int \<Rightarrow> int list option" where
  "build_Ms T t fast s maxpi maxm0 = do {
     _ \<leftarrow> assert_o (0 \<le> maxm0 \<and> s - 1 \<le> maxm0);
     tl \<leftarrow> filter_opt (\<lambda>m. do {
              fpi \<leftarrow> F_pi T m;
              if fpi = 0 then Some False
              else if fast then do { q \<leftarrow> divo t m; b \<leftarrow> nth_opt (PI_tab T) q; Some (fpi \<le> b) }
              else Some (fpi \<le> maxpi) }) [s..maxm0];
     Some (0 # [1..s - 1] @ tl) }"

text \<open>
  Tier (a), the primes in \<open>[s, sqrt N]\<close> (lines 343--350).  The loop state is the
  iterator, \<open>m\<close>, \<open>E\<close>, \<open>cnt\<close> and the certificate; on exit the first prime beyond
  \<open>sqrt N\<close> is returned as well.
  \<^verbatim>\<open>while ( (p = primesieve_next_prime(&ctx)) <= sqrtN) {\<close>
  \<^verbatim>\<open>  while ( (m-1)*p >= t ) m--;  n = N / p + N / (p*p);\<close>
  \<^verbatim>\<open>  for ( f = F+M[m] ; f->pi ; f++ ) E[f->pi] -= n*f->e;  cnt += n;\<close>
  \<^verbatim>\<open>  if ( v ) fac_extend_mp (v,n,m,F+M[m],p,verbosity); }\<close>
\<close>

definition dec_m :: "int \<Rightarrow> int \<Rightarrow> int \<Rightarrow> int option" where
  "dec_m t p m = while_opt (\<lambda>m. if (m - 1) * p \<ge> t then Some (Next (m - 1)) else Some (Done m)) m"

definition tier_a ::
  "tables \<Rightarrow> int \<Rightarrow> int \<Rightarrow> int \<Rightarrow> nat \<times> int \<times> int list \<times> int \<times> fac option
     \<Rightarrow> (int \<times> nat \<times> int \<times> int list \<times> int \<times> fac option) option" where
  "tier_a T N t sqrtN =
     while_opt (\<lambda>(it, m, E, cnt, v). do {
        pn \<leftarrow> next_prime it;
        let p = int pn;
        if p \<le> sqrtN then do {
          m \<leftarrow> dec_m t p m;
          let n = c_div N p + c_div N (p * p);
          f \<leftarrow> fact_of T m;
          E \<leftarrow> sub_fact_o E n f;
          v \<leftarrow> opt_extend v (\<lambda>w. fac_extend_mp w n m f p);
          Some (Next (Suc pn, m, E, cnt + n, v)) }
        else Some (Done (p, Suc pn, m, E, cnt, v)) })"

text \<open>
  Tier (b), the primes in \<open>(sqrt N, plmmax]\<close>, enumerated and batched (lines 362--371):
  \<^verbatim>\<open>for ( ; p <= plmmax ;) {\<close>
  \<^verbatim>\<open>  while ( p > pmmax ) { m--; pmmax = (t-1)/(m-1); }\<close>
  \<^verbatim>\<open>  while ( p > pnmax ) { n--; pnmax = N/n; }\<close>
  \<^verbatim>\<open>  pmax = min(pmmax,pnmax); assert (p <= pmax);\<close>
  \<^verbatim>\<open>  c = 1; while ( (p = primesieve_next_prime(&ctx)) <= pmax ) c++;\<close>
  \<^verbatim>\<open>  for ( q = F+M[m] ; q->pi ; q++ ) E[q->pi] -= c*n*q->e;  cnt += c*n;\<close>
  \<^verbatim>\<open>  if ( v ) { fac_extend (v,n,m,F+M[m],pmin,pmax,c,verbosity); pmin = p-1; } }\<close>
\<close>

definition upd_m :: "int \<Rightarrow> int \<Rightarrow> int \<times> int \<Rightarrow> (int \<times> int) option" where
  "upd_m t p = while_opt (\<lambda>(m, pmmax). if p > pmmax
        then (case divo (t - 1) (m - 1 - 1) of None \<Rightarrow> None | Some d \<Rightarrow> Some (Next (m - 1, d)))
        else Some (Done (m, pmmax)))"

definition upd_n :: "int \<Rightarrow> int \<Rightarrow> int \<times> int \<Rightarrow> (int \<times> int) option" where
  "upd_n N p = while_opt (\<lambda>(n, pnmax). if p > pnmax
        then (case divo N (n - 1) of None \<Rightarrow> None | Some d \<Rightarrow> Some (Next (n - 1, d)))
        else Some (Done (n, pnmax)))"

definition count_batch :: "int \<Rightarrow> nat \<times> int \<Rightarrow> (int \<times> nat \<times> int) option" where
  "count_batch pmax = while_opt (\<lambda>(it, c). do {
        pn \<leftarrow> next_prime it;
        if int pn \<le> pmax then Some (Next (Suc pn, c + 1)) else Some (Done (int pn, Suc pn, c)) })"

definition tier_b ::
  "tables \<Rightarrow> int \<Rightarrow> int \<Rightarrow> int
     \<Rightarrow> int \<times> nat \<times> int \<times> int \<times> int \<times> int \<times> int \<times> int list \<times> int \<times> fac option
     \<Rightarrow> (int \<times> int list \<times> int \<times> fac option) option" where
  "tier_b T N t plmmax =
     while_opt (\<lambda>(p, it, m, pmmax, n, pnmax, pmin, E, cnt, v).
        if p \<le> plmmax then do {
          (m, pmmax) \<leftarrow> upd_m t p (m, pmmax);
          (n, pnmax) \<leftarrow> upd_n N p (n, pnmax);
          let pmax = min pmmax pnmax;
          _ \<leftarrow> assert_o (p \<le> pmax);
          (p', it, c) \<leftarrow> count_batch pmax (it, 1);
          f \<leftarrow> fact_of T m;
          E \<leftarrow> sub_fact_o E (c * n) f;
          v' \<leftarrow> opt_extend v (\<lambda>w. fac_extend w n m f pmin pmax c);
          Some (Next (p', it, m, pmmax, n, pnmax, (if v = None then pmin else p' - 1), E, cnt + c * n, v')) }
        else Some (Done (m, E, cnt, v)))"

text \<open>
  Tier (c), the primes in \<open>(plmmax, t)\<close>, counted with \<^verbatim>\<open>pi\<close>, by decreasing cofactor
  (lines 379--390):
  \<^verbatim>\<open>for ( m = mid ; m > 1 ; m-- ) {\<close>
  \<^verbatim>\<open>  int64_t p = cdiv(t,m), pmax = (t-1)/(m-1);  n = N/p; pnmax = min(N/n,pmax);\<close>
  \<^verbatim>\<open>  while ( pmin < pmax ) {\<close>
  \<^verbatim>\<open>    nextpi = pi(pnmax);  c = (nextpi-lastpi); cnt += c*n;\<close>
  \<^verbatim>\<open>    for ( q = F+M[m] ; q->pi ; q++ ) E[q->pi] -= c*n*q->e;\<close>
  \<^verbatim>\<open>    if ( v ) fac_extend (v,n,m,F+M[m],pmin,pnmax,c,verbosity);\<close>
  \<^verbatim>\<open>    pmin = pnmax; n--; pnmax = min(N/n,pmax);  lastpi = nextpi; } }\<close>
\<close>

definition tier_c_inner ::
  "tables \<Rightarrow> int \<Rightarrow> int \<Rightarrow> int
     \<Rightarrow> int \<times> int \<times> int \<times> int \<times> int list \<times> int \<times> fac option
     \<Rightarrow> (int \<times> int \<times> int list \<times> int \<times> fac option) option" where
  "tier_c_inner T N m pmax =
     while_opt (\<lambda>(pmin, n, pnmax, lastpi, E, cnt, v).
        if pmin < pmax then do {
          nextpi \<leftarrow> pi_fn T pnmax;
          let c = nextpi - lastpi;
          f \<leftarrow> fact_of T m;
          E \<leftarrow> sub_fact_o E (c * n) f;
          v \<leftarrow> opt_extend v (\<lambda>w. fac_extend w n m f pmin pnmax c);
          d \<leftarrow> divo N (n - 1);
          Some (Next (pnmax, n - 1, min d pmax, nextpi, E, cnt + c * n, v)) }
        else Some (Done (pmin, lastpi, E, cnt, v)))"

definition tier_c ::
  "tables \<Rightarrow> int \<Rightarrow> int
     \<Rightarrow> int \<times> int \<times> int \<times> int list \<times> int \<times> fac option
     \<Rightarrow> (int \<times> int \<times> int list \<times> int \<times> fac option) option" where
  "tier_c T N t =
     while_opt (\<lambda>(m, pmin, lastpi, E, cnt, v).
        if m > 1 then do {
          p \<leftarrow> cdiv t m;
          pmax \<leftarrow> divo (t - 1) (m - 1);
          n \<leftarrow> divo N p;
          d \<leftarrow> divo N n;
          (pmin, lastpi, E, cnt, v) \<leftarrow> tier_c_inner T N m pmax (pmin, n, min d pmax, lastpi, E, cnt, v);
          Some (Next (m - 1, pmin, lastpi, E, cnt, v)) }
        else Some (Done (m, lastpi, E, cnt, v)))"

text \<open>
  The primes in \<open>[t, N]\<close>, with cofactor 1, in three bands (lines 395--406):
  \<^verbatim>\<open>if ( 3*t <= N ) { nextpi = pi(N/3); cnt += 3*(nextpi-lastpi);\<close>
  \<^verbatim>\<open>  if ( v ) fac_extend (v,3,1,F+M[1],t-1,N/3,nextpi-lastpi,verbosity); lastpi = nextpi; }\<close>
  \<^verbatim>\<open>nextpi = pi(N/2); cnt += 2*(nextpi-lastpi);\<close>
  \<^verbatim>\<open>if ( v ) fac_extend (v,2,1,F+M[1],max(t-1,N/3),N/2,nextpi-lastpi,verbosity);\<close>
  \<^verbatim>\<open>lastpi = nextpi; nextpi = pi(N); cnt += nextpi-lastpi;\<close>
  \<^verbatim>\<open>if ( v ) fac_extend (v,1,1,F+M[1],N/2,N,nextpi-lastpi,verbosity);\<close>
\<close>

definition bands ::
  "tables \<Rightarrow> int \<Rightarrow> int \<Rightarrow> int \<Rightarrow> int \<Rightarrow> fac option \<Rightarrow> (int \<times> fac option) option" where
  "bands T N t lastpi cnt v = do {
     (lastpi, cnt, v) \<leftarrow>
        (if 3 * t \<le> N then do {
           nextpi \<leftarrow> pi_fn T (c_div N 3);
           v \<leftarrow> opt_extend v (\<lambda>w. do { f \<leftarrow> fact_of T 1;
                                       fac_extend w 3 1 f (t - 1) (c_div N 3) (nextpi - lastpi) });
           Some (nextpi, cnt + 3 * (nextpi - lastpi), v) }
         else Some (lastpi, cnt, v));
     nextpi \<leftarrow> pi_fn T (c_div N 2);
     let cnt = cnt + 2 * (nextpi - lastpi);
     v \<leftarrow> opt_extend v (\<lambda>w. do { f \<leftarrow> fact_of T 1;
                                 fac_extend w 2 1 f (max (t - 1) (c_div N 3)) (c_div N 2) (nextpi - lastpi) });
     let lastpi = nextpi;
     nextpi \<leftarrow> pi_fn T N;
     let cnt = cnt + (nextpi - lastpi);
     v \<leftarrow> opt_extend v (\<lambda>w. do { f \<leftarrow> fact_of T 1;
                                 fac_extend w 1 1 f (c_div N 2) N (nextpi - lastpi) });
     Some (cnt, v) }"

text \<open>
  The first phase of \<^verbatim>\<open>tfac\<close> (lines 284--411): the preconditions, the valuations, the
  candidate list, and the factors \<open>m * p\<close> for all primes \<open>p \<ge> s\<close>; it ends with
  \<^verbatim>\<open>for ( i = 1 ; i <= maxpi ; i++ ) assert(E[i] >= 0);\<close>
  The division \<^verbatim>\<open>(t-1)/mid\<close> is first made in the call of \<^verbatim>\<open>primesieve_start\<close>.
  The arguments \<^verbatim>\<open>verbosity\<close> and \<^verbatim>\<open>dumpfile\<close> only print and are left out.  Both modes
  share this phase: with \<^verbatim>\<open>feasible\<close> set \<^verbatim>\<open>tfac\<close> returns at its end (\<open>tfac_feasible\<close> below),
  otherwise it goes on (\<open>tfac_run\<close>).
\<close>

text \<open>
  The crossover between enumerating and counting primes (lines 333--334), \<open>pc\<close> being
  \<^verbatim>\<open>(int64_t)pow(t,MCUTOFF)\<close>:
  \<^verbatim>\<open>mid = min((int64_t)pow(t,MCUTOFF),(t-1)/sqrtN);  if ( (int64_t)sqrtN*mid >= t ) mid = (t-1)/sqrtN;\<close>
\<close>

definition crossover :: "int \<Rightarrow> int \<Rightarrow> int \<Rightarrow> int" where
  "crossover t sqrtN pc =
     (let mid = min pc (c_div (t - 1) sqrtN)
      in if sqrtN * mid \<ge> t then c_div (t - 1) sqrtN else mid)"

record phase1 =
  ph_s :: int
  ph_maxpi :: nat
  ph_Ms :: "int list"
  ph_numm :: nat
  ph_maxm :: int
  ph_E :: "int list"
  ph_cnt :: int
  ph_v :: "fac option"

definition tfac_phase1 :: "tables \<Rightarrow> int \<Rightarrow> int \<Rightarrow> bool \<Rightarrow> bool \<Rightarrow> phase1 option" where
  "tfac_phase1 T N t fast verify = do {
     _ \<leftarrow> assert_o (N \<ge> 10 \<and> N < MAXN \<and> 4 * t > N \<and> 2 * t < N);
     let sqrtN = c_sqrt N;
     s \<leftarrow> fac_s T t;
     maxpi \<leftarrow> nth_opt (PI_tab T) (s - 1);
     E \<leftarrow> valuations T N maxpi;
     _ \<leftarrow> assert_o (fast \<or> t \<le> int (MAXM T) + 1);
     maxm0 \<leftarrow> (if fast then pow_floor t 5 8 else Some (t - 1));
     _ \<leftarrow> assert_o (maxm0 \<le> int (MAXM T));
     Ms \<leftarrow> build_Ms T t fast s maxpi maxm0;
     let numm = length Ms - 1;
     let maxm = Ms ! numm;
     let v = (if verify then Some (fac_alloc N t) else None);
     m \<leftarrow> cdiv t s;
     _ \<leftarrow> assert_o (m \<le> maxm);
     msm \<leftarrow> nth_opt Ms m;
     _ \<leftarrow> assert_o (msm = m);
     pc \<leftarrow> pow_floor t 9 40;
     let mid = crossover t sqrtN pc;
     plmmax \<leftarrow> divo (t - 1) mid;
     (p, it, m, E, cnt, v) \<leftarrow> tier_a T N t sqrtN (nat s, m, E, 0, v);
     pmmax \<leftarrow> divo (t - 1) (m - 1);
     cd \<leftarrow> (if p > pmmax then Some m else cdiv t p);
     _ \<leftarrow> assert_o (p > pmmax \<or> m = cd);
     n \<leftarrow> divo N (sqrtN + 1);
     pnmax \<leftarrow> divo N n;
     (m, E, cnt, v) \<leftarrow> tier_b T N t plmmax (p, it, m, pmmax, n, pnmax, p - 1, E, cnt, v);
     lastpi \<leftarrow> pi_fn T plmmax;
     (m, lastpi, E, cnt, v) \<leftarrow> tier_c T N t (mid, plmmax, lastpi, E, cnt, v);
     pt \<leftarrow> pi_fn T (t - 1);
     _ \<leftarrow> assert_o (lastpi = pt);
     (cnt, v) \<leftarrow> bands T N t lastpi cnt v;
     _ \<leftarrow> assert_o (list_all (\<lambda>x. x \<ge> 0) (tl E));
     Some \<lparr>ph_s = s, ph_maxpi = maxpi, ph_Ms = Ms, ph_numm = numm, ph_maxm = maxm,
            ph_E = E, ph_cnt = cnt, ph_v = v\<rparr> }"

section \<open>The counter \<^verbatim>\<open>tfac\<close>, second phase\<close>

text \<open>\<^verbatim>\<open>while ( i && !E[i] ) i--;\<close>\<close>

definition skip_zero :: "int list \<Rightarrow> nat \<Rightarrow> nat option" where
  "skip_zero E = while_opt (\<lambda>i. if i = 0 then Some (Done i)
       else (case nth_opt E (int i) of None \<Rightarrow> None
             | Some x \<Rightarrow> if x = 0 then Some (Next (i - 1)) else Some (Done i)))"

subsection \<open>Standard greedy (lines 433--453)\<close>

text \<open>
  \<^verbatim>\<open>for ( i = maxpi, j = cdiv(t,s) ; i ; ) {\<close>
  \<^verbatim>\<open>  while ( j <= numm && ((int64_t)P[i]*Ms[j] < t || F[M[Ms[j]]].pi > i) ) j++;\<close>
  \<^verbatim>\<open>  struct pp *f = F+M[Ms[j]];\<close>
  \<^verbatim>\<open>  if ( j > numm ) break;\<close>
  \<^verbatim>\<open>  int64_t e = fcnti(E,i,f);\<close>
  \<^verbatim>\<open>  if ( !e ) { if ( pcnt < 40 ) { q = 1; for ( ii = i ; ii && q < t ; ii-- )\<close>
  \<^verbatim>\<open>       for ( x = 0 ; x < E[ii] && q < t ; x++ ) q *= P[ii];  if ( q < t ) break; }  j++; continue; }\<close>
  \<^verbatim>\<open>  cnt += e; for ( E[i] -= e, pcnt -= e ; f->pi ; f++ ) { E[f->pi] -= e*f->e; pcnt -= e*f->e; }\<close>
  \<^verbatim>\<open>  if ( v ) fac_extend_mp (v,e,Ms[j],f,P[i],verbosity);\<close>
  \<^verbatim>\<open>  while ( i && !E[i] ) i--; }\<close>
  Two remarks.  When \<open>j = numm + 1\<close> the source reads \<^verbatim>\<open>Ms[j]\<close>, one entry behind the
  list, before it leaves the loop; the value is not used, and the model leaves the loop
  first.  The pointer \<open>f\<close> given to \<^verbatim>\<open>fac_extend_mp\<close> has been moved to the
  terminator by the loop before it, so the item records the empty factorization.
\<close>

definition adv_j :: "tables \<Rightarrow> int \<Rightarrow> int list \<Rightarrow> nat \<Rightarrow> nat \<Rightarrow> int \<Rightarrow> nat \<Rightarrow> nat option" where
  "adv_j T t Ms numm i p = while_opt (\<lambda>j.
      if j \<le> numm then do {
        mj \<leftarrow> nth_opt Ms (int j);
        if p * mj < t then Some (Next (Suc j))
        else do { fpi \<leftarrow> F_pi T mj; if fpi > i then Some (Next (Suc j)) else Some (Done j) } }
      else Some (Done j))"

definition mul_while :: "int \<Rightarrow> int \<Rightarrow> int \<Rightarrow> int \<Rightarrow> int option" where
  "mul_while t p ei q0 = while_opt (\<lambda>(x, q). if x < ei \<and> q < t then Some (Next (x + 1, q * p))
                                               else Some (Done q)) (0, q0)"

definition rest_prod :: "tables \<Rightarrow> int \<Rightarrow> int list \<Rightarrow> nat \<Rightarrow> int option" where
  "rest_prod T t E i = while_opt (\<lambda>(ii, q).
      if ii \<noteq> 0 \<and> q < t then do {
        ei \<leftarrow> nth_opt E (int ii);
        p \<leftarrow> P_at T ii;
        q \<leftarrow> mul_while t p ei q;
        Some (Next (ii - 1, q)) }
      else Some (Done q)) (i, 1)"

definition std_greedy ::
  "tables \<Rightarrow> int \<Rightarrow> int list \<Rightarrow> nat
     \<Rightarrow> nat \<times> nat \<times> int list \<times> int \<times> int \<times> fac option
     \<Rightarrow> (int list \<times> int \<times> fac option) option" where
  "std_greedy T t Ms numm = while_opt (\<lambda>(i, j, E, pcnt, cnt, v).
      if i = 0 then Some (Done (E, cnt, v))
      else do {
        p \<leftarrow> P_at T i;
        j \<leftarrow> adv_j T t Ms numm i p j;
        if j > numm then Some (Done (E, cnt, v))
        else do {
          mj \<leftarrow> nth_opt Ms (int j);
          f \<leftarrow> fact_of T mj;
          e \<leftarrow> fcnti E i f;
          if e = 0 then
            (if pcnt < 40 then do {
               q \<leftarrow> rest_prod T t E i;
               if q < t then Some (Done (E, cnt, v)) else Some (Next (i, Suc j, E, pcnt, cnt, v)) }
             else Some (Next (i, Suc j, E, pcnt, cnt, v)))
          else do {
            E \<leftarrow> sub_at E i e;
            E \<leftarrow> sub_fact_o E e f;
            let pcnt = pcnt - e - e * int (sum_list (map pp_e f));
            v \<leftarrow> opt_extend v (\<lambda>w. fac_extend_mp w e mj [] p);
            i \<leftarrow> skip_zero E i;
            Some (Next (i, j, E, pcnt, cnt + e, v)) } } })"

subsection \<open>Fast greedy, the pass over the primes (lines 466--513)\<close>

text \<open>
  \<^verbatim>\<open>while ( (int64_t)P[i]*Ms[j] < t || F[M[Ms[j]]].pi >= i ) j++;\<close>
  has no bound on \<open>j\<close>: a read behind the list is \<open>None\<close>.
\<close>

definition adv_j_fast :: "tables \<Rightarrow> int \<Rightarrow> int list \<Rightarrow> nat \<Rightarrow> int \<Rightarrow> nat \<Rightarrow> nat option" where
  "adv_j_fast T t Ms i p = while_opt (\<lambda>j. do {
      mj \<leftarrow> nth_opt Ms (int j);
      if p * mj < t then Some (Next (Suc j))
      else do { fpi \<leftarrow> F_pi T mj; if fpi \<ge> i then Some (Next (Suc j)) else Some (Done j) } })"

text \<open>
  The two scans for a larger cofactor (lines 489--493 and 501--505); \<open>cap\<close> is
  \<^verbatim>\<open>E[i]\<close> or \<^verbatim>\<open>E[i]/2\<close>, \<open>stop\<close> is \<^verbatim>\<open>E[i]\<close>, the list holds \<^verbatim>\<open>Ms[k]\<close> for the \<open>k\<close> of the loop,
  and the state is \<open>(e, f, m)\<close>:
  \<^verbatim>\<open>g = F+M[Ms[k]]; x = fcnt(E,cap,g); if ( x > e ) { e = x; f = g; m = Ms[k]; if ( e == E[i] ) break; }\<close>
\<close>

fun scan_best ::
  "tables \<Rightarrow> int list \<Rightarrow> int \<Rightarrow> int \<Rightarrow> int list \<Rightarrow> int \<times> pp list \<times> int
     \<Rightarrow> (int \<times> pp list \<times> int) option" where
  "scan_best T E cap stop [] best = Some best"
| "scan_best T E cap stop (mk # ms) best =
     (case fact_of T mk of None \<Rightarrow> None
      | Some g \<Rightarrow>
         (case fcnt E cap g of None \<Rightarrow> None
          | Some x \<Rightarrow>
             if x > fst best then (if x = stop then Some (x, g, mk)
                                   else scan_best T E cap stop ms (x, g, mk))
             else scan_best T E cap stop ms best))"

text \<open>
  \<^verbatim>\<open>if ( e ) { if ( v ) fac_extend_mp (v,e,m,f,P[i],verbosity);\<close>
  \<^verbatim>\<open>           cnt += e; for ( E[i] -= e ; f->pi ; f++ ) E[f->pi] -= e*f->e; }\<close>
  and the same for \<open>P[i]^2\<close>, with \<^verbatim>\<open>fac_extend_mp2\<close> and \<^verbatim>\<open>E[i] -= 2*e\<close>.
\<close>

definition take_mp ::
  "tables \<Rightarrow> nat \<Rightarrow> int \<Rightarrow> int \<Rightarrow> int \<Rightarrow> pp list \<Rightarrow> int list \<times> int \<times> fac option
     \<Rightarrow> (int list \<times> int \<times> fac option) option" where
  "take_mp T i p e m f = (\<lambda>(E, cnt, v).
     if e = 0 then Some (E, cnt, v)
     else do {
       v \<leftarrow> opt_extend v (\<lambda>w. fac_extend_mp w e m f p);
       E \<leftarrow> sub_at E i e;
       E \<leftarrow> sub_fact_o E e f;
       Some (E, cnt + e, v) })"

definition take_mp2 ::
  "tables \<Rightarrow> nat \<Rightarrow> int \<Rightarrow> int \<Rightarrow> pp list \<Rightarrow> int list \<times> int \<times> fac option
     \<Rightarrow> (int list \<times> int \<times> fac option) option" where
  "take_mp2 T i e m f = (\<lambda>(E, cnt, v).
     if e = 0 then Some (E, cnt, v)
     else do {
       v \<leftarrow> opt_extend v (\<lambda>w. fac_extend_mp2 T w e m f i);
       E \<leftarrow> sub_at E i (2 * e);
       E \<leftarrow> sub_fact_o E e f;
       Some (E, cnt + e, v) })"

text \<open>
  The body of the loop over \<open>i\<close>: the minimal cofactor for \<open>P[i]\<close>; if that does not use
  up \<open>P[i]\<close>, first the cofactor \<^verbatim>\<open>cdiv(t,P[i]*P[i])\<close> for \<open>P[i]^2\<close>; then, while \<open>P[i]\<close> is
  left, the best larger cofactor for \<open>P[i]\<close> and for \<open>P[i]^2\<close>.
\<close>

definition fast_prime ::
  "tables \<Rightarrow> int \<Rightarrow> int list \<Rightarrow> nat \<Rightarrow> nat \<times> int list \<times> int \<times> fac option
     \<Rightarrow> (nat \<times> int list \<times> int \<times> fac option) option" where
  "fast_prime T t Ms i = (\<lambda>(j, E, cnt, v). do {
     p \<leftarrow> P_at T i;
     j \<leftarrow> adv_j_fast T t Ms i p j;
     mj \<leftarrow> nth_opt Ms (int j);
     f \<leftarrow> fact_of T mj;
     ei \<leftarrow> nth_opt E (int i);
     e \<leftarrow> fcnt E ei f;
     (e, E, cnt, v) \<leftarrow>
       (if e < ei then do {
          m \<leftarrow> cdiv t (p * p);
          g \<leftarrow> fact_of T m;
          e2 \<leftarrow> fcnt E (c_div ei 2) g;
          (E, cnt, v) \<leftarrow> take_mp2 T i e2 m g (E, cnt, v);
          e \<leftarrow> fcnt E (E ! i) f;
          Some (e, E, cnt, v) }
        else Some (e, E, cnt, v));
     (E, cnt, v) \<leftarrow> take_mp T i p e mj f (E, cnt, v);
     (E, cnt, v) \<leftarrow>
       (if E ! i \<noteq> 0 then do {
          (e, f, m) \<leftarrow> scan_best T E (E ! i) (E ! i) (drop (Suc j) Ms) (0, [], 0);
          (E, cnt, v) \<leftarrow> take_mp T i p e m f (E, cnt, v);
          if E ! i \<noteq> 0 then do {
            m0 \<leftarrow> cdiv t (p * p);
            let m = m0 + 1;
            msm \<leftarrow> nth_opt Ms m;
            _ \<leftarrow> assert_o (msm = m);
            (e, f, m) \<leftarrow> scan_best T E (c_div (E ! i) 2) (E ! i) (drop (nat m) Ms) (0, [], m);
            take_mp2 T i e m f (E, cnt, v) }
          else Some (E, cnt, v) }
        else Some (E, cnt, v));
     Some (j, E, cnt, v) })"

definition fast_pass ::
  "tables \<Rightarrow> int \<Rightarrow> int list \<Rightarrow> nat \<Rightarrow> nat \<times> nat \<times> int list \<times> int \<times> fac option
     \<Rightarrow> (int list \<times> int \<times> fac option) option" where
  "fast_pass T t Ms pimin = while_opt (\<lambda>(i, j, E, cnt, v).
      if i \<ge> pimin then do {
        (j, E, cnt, v) \<leftarrow> fast_prime T t Ms i (j, E, cnt, v);
        Some (Next (i - 1, j, E, cnt, v)) }
      else Some (Done (E, cnt, v)))"

subsection \<open>Fast greedy, the packing loop (lines 520--568)\<close>

text \<open>
  \<open>c\<close> is the factorization of the product \<open>q\<close> being assembled (\<^verbatim>\<open>struct pp c[16]\<close>, whose
  size is not checked), \<open>c_append\<close> is
  \<^verbatim>\<open>if ( (f-1)->pi == i ) { (f-1)->e++; } else { f->pi = i; f->e = 1; (++f)->pi = 0; }\<close>
  and \<open>c_cap\<close> is \<^verbatim>\<open>1 + fcnt(E,E[c->pi]/c->e,c+1)\<close>.
\<close>

definition c_append :: "nat \<Rightarrow> pp list \<Rightarrow> pp list" where
  "c_append i c = (if c \<noteq> [] \<and> pp_pi (last c) = i
                   then butlast c @ [PP i (Suc (pp_e (last c)))] else c @ [PP i 1])"

definition c_cap :: "int list \<Rightarrow> pp list \<Rightarrow> int option" where
  "c_cap E c = (case c of [] \<Rightarrow> None
                | x # r \<Rightarrow> do { ex \<leftarrow> nth_opt E (int (pp_pi x));
                                d \<leftarrow> divo ex (int (pp_e x));
                                k \<leftarrow> fcnt E d r;
                                Some (1 + k) })"

text \<open>
  \<^verbatim>\<open>while ( i && q*P[i] < good ) { q *= P[i]; E[i]--; (append i to c); while ( i && !E[i] ) i--; }\<close>
\<close>

definition pack_fill ::
  "tables \<Rightarrow> int \<Rightarrow> nat \<times> int \<times> int list \<times> pp list \<Rightarrow> (nat \<times> int \<times> int list \<times> pp list) option" where
  "pack_fill T good = while_opt (\<lambda>(i, q, E, c).
      if i = 0 then Some (Done (i, q, E, c))
      else do {
        p \<leftarrow> P_at T i;
        if q * p < good then do {
          E \<leftarrow> sub_at E i 1;
          i' \<leftarrow> skip_zero E i;
          Some (Next (i', q * p, E, c_append i c)) }
        else Some (Done (i, q, E, c)) })"

text \<open>
  \<^verbatim>\<open>for ( m = cdiv(t,q) ; m < P[(f-1)->pi] ; m++ ) {\<close>
  \<^verbatim>\<open>  x = fcnt(E,e,F+M[m]);  if ( x > b ) { b = x; g = F+M[m]; }  if ( x == e ) break; }\<close>
  The value of \<open>m\<close> after the loop is returned with \<open>b\<close> and \<open>g\<close>: the source goes on with
  \<^verbatim>\<open>q *= m\<close>.
\<close>

definition pack_search ::
  "tables \<Rightarrow> int list \<Rightarrow> int \<Rightarrow> int \<Rightarrow> int \<times> int \<times> pp list \<Rightarrow> (int \<times> pp list \<times> int) option" where
  "pack_search T E e plast = while_opt (\<lambda>(m, b, g).
      if m < plast then do {
        fm \<leftarrow> fact_of T m;
        x \<leftarrow> fcnt E e fm;
        let b' = (if x > b then x else b);
        let g' = (if x > b then fm else g);
        if x = e then Some (Done (b', g', m)) else Some (Next (m + 1, b', g')) }
      else Some (Done (b, g, m)))"

text \<open>
  One round takes the largest prime left, multiplies smaller ones to it while the product
  stays below \<open>good\<close>, and closes the factor with a cofactor or with one more prime.  The
  result of the loop holds the partial factor \<open>c\<close> of a round left by \<^verbatim>\<open>break\<close>.
\<close>

definition fast_pack ::
  "tables \<Rightarrow> int \<Rightarrow> int \<Rightarrow> int \<Rightarrow> nat \<times> int list \<times> int \<times> fac option
     \<Rightarrow> (nat \<times> int list \<times> pp list \<times> int \<times> fac option) option" where
  "fast_pack T t s good = while_opt (\<lambda>(maxpi, E, cnt, v).
      if maxpi = 0 then Some (Done (maxpi, E, [], cnt, v))
      else do {
        maxpi \<leftarrow> skip_zero E maxpi;
        if maxpi = 0 then Some (Done (maxpi, E, [], cnt, v))
        else do {
          let i = maxpi;
          q \<leftarrow> P_at T i;
          let c = [PP i 1];
          E \<leftarrow> sub_at E i 1;
          i \<leftarrow> skip_zero E i;
          if i = 0 then Some (Done (maxpi, E, c, cnt, v))
          else do {
            (i, q, E, c) \<leftarrow> pack_fill T good (i, q, E, c);
            if i = 0 \<and> q < t then Some (Done (maxpi, E, c, cnt, v))
            else do {
              e \<leftarrow> c_cap E c;
              if q < t then do {
                _ \<leftarrow> assert_o (q > s);
                m0 \<leftarrow> cdiv t q;
                plast \<leftarrow> P_at T (pp_pi (last c));
                (b, g, m) \<leftarrow> pack_search T E e plast (m0, 0, []);
                if b \<noteq> 0 then do {
                  E \<leftarrow> sub_fact_o E 1 g;
                  let c = c @ g;
                  let q = q * m;
                  _ \<leftarrow> assert_o (q \<ge> t);
                  v \<leftarrow> opt_extend v (\<lambda>w. fac_extend_m T w b q c);
                  E \<leftarrow> sub_fact_o E (b - 1) c;
                  Some (Next (i, E, cnt + b, v)) }
                else if i = 0 then Some (Done (maxpi, E, c, cnt, v))
                else do {
                  p \<leftarrow> P_at T i;
                  let q = q * p;
                  E \<leftarrow> sub_at E i 1;
                  let c = c_append i c;
                  b \<leftarrow> c_cap E c;
                  _ \<leftarrow> assert_o (b \<noteq> 0);
                  _ \<leftarrow> assert_o (q \<ge> t);
                  v \<leftarrow> opt_extend v (\<lambda>w. fac_extend_m T w b q c);
                  E \<leftarrow> sub_fact_o E (b - 1) c;
                  Some (Next (i, E, cnt + b, v)) } }
              else do {
                v \<leftarrow> opt_extend v (\<lambda>w. fac_extend_m T w e q c);
                E \<leftarrow> sub_fact_o E (e - 1) c;
                Some (Next (i, E, cnt + e, v)) } } } } })"

text \<open>
  The fast variant as a whole; it ends with
  \<^verbatim>\<open>for ( f = c ; f->pi ; f++ ) E[f->pi] += f->e;\<close>
\<close>

definition fast_greedy ::
  "tables \<Rightarrow> int \<Rightarrow> int \<Rightarrow> int list \<Rightarrow> int \<Rightarrow> nat \<Rightarrow> int list \<Rightarrow> int \<Rightarrow> fac option
     \<Rightarrow> (nat \<times> int list \<times> int \<times> fac option) option" where
  "fast_greedy T t s Ms maxm maxpi E cnt v = do {
     cm \<leftarrow> cdiv t maxm;
     pm \<leftarrow> pi_fn T cm;
     let pimin = nat (pm + 1);
     j0 \<leftarrow> cdiv t s;
     (E, cnt, v) \<leftarrow> fast_pass T t Ms pimin (maxpi, nat j0, E, cnt, v);
     maxpi \<leftarrow> skip_zero E maxpi;
     t4 \<leftarrow> cdiv t 4;
     (maxpi, E, c, cnt, v) \<leftarrow> fast_pack T t s (5 * t4) (maxpi, E, cnt, v);
     E \<leftarrow> sub_fact_o E (- 1) c;
     Some (maxpi, E, cnt, v) }"

section \<open>The closing check, \<^verbatim>\<open>fac_verify\<close> and \<^verbatim>\<open>tfac\<close>\<close>

text \<open>
  Line 575:
  \<^verbatim>\<open>q = 1; for ( i = 1 ; i <= maxpi ; i++ ) { assert(E[i] >= 0);\<close>
  \<^verbatim>\<open>  for ( e = 0 ; e < E[i] ; e++ ) { q *= P[i]; assert (q<t); } }\<close>
\<close>

definition close_prime :: "int \<Rightarrow> int \<Rightarrow> int \<Rightarrow> int \<Rightarrow> int option" where
  "close_prime t p ei q0 = while_opt (\<lambda>(x, q).
      if x < ei then (if q * p < t then Some (Next (x + 1, q * p)) else None)
      else Some (Done q)) (0, q0)"

definition closing :: "tables \<Rightarrow> int \<Rightarrow> nat \<Rightarrow> int list \<Rightarrow> int option" where
  "closing T t maxpi E = do {
     q \<leftarrow> fold_opt (\<lambda>i q. do {
            ei \<leftarrow> nth_opt E (int i);
            _ \<leftarrow> assert_o (ei \<ge> 0);
            p \<leftarrow> P_at T i;
            close_prime t p ei q }) [1..<Suc maxpi] 1;
     Some q }"

text \<open>
  \<^verbatim>\<open>fac_verify\<close> (lines 232--269).  One item is replayed by \<open>verify_item\<close>; the state is
  \<open>E\<close>, \<open>cnt\<close>, \<open>lastp\<close>, \<open>lastpi\<close> and \<open>nextpi\<close>.  The function returns the replayed \<open>E\<close> and
  \<open>cnt\<close> (the source prints \<open>cnt\<close> and returns 1).

  For an item with \<open>q \<le> maxp\<close> the number of factors is summed in an \<^verbatim>\<open>int32_t\<close>:
  \<^verbatim>\<open>int32_t x = 0; for ( pi = PI[r->p]+1 ; pi <= PI[r->q] ; pi++ ) { E[pi] -= r->n; x += r->n; }\<close>
  \<^verbatim>\<open>for ( f = r->f ; f->pi ; f++ ) E[f->pi] -= x*f->e;  cnt += x;\<close>
  The sum \<open>x + r->n\<close> is made in 64 bits and converted back, which keeps the low 32 bits
  (\<open>wrap32\<close>); the product \<open>x*f->e\<close> is a product of two \<^verbatim>\<open>int\<close>, undefined when it leaves
  32 bits.
\<close>

definition wrap32 :: "int \<Rightarrow> int" where
  "wrap32 z = (z + 2 ^ 31) mod 2 ^ 32 - 2 ^ 31"

definition verify_item ::
  "tables \<Rightarrow> int \<Rightarrow> int \<Rightarrow> int \<Rightarrow> int \<Rightarrow> fac_item
     \<Rightarrow> int list \<times> int \<times> int \<times> int \<times> int
     \<Rightarrow> (int list \<times> int \<times> int \<times> int \<times> int) option" where
  "verify_item T N t sqrtN maxp r = (\<lambda>(E, cnt, lastp, lastpi, nextpi). do {
     _ \<leftarrow> assert_o (fi_n r \<noteq> 0 \<and> fi_p r < fi_q r \<and> fi_q r \<le> N);
     _ \<leftarrow> assert_o (fi_m r * (fi_p r + 1) \<ge> t);
     if fi_q r \<le> maxp then do {
       lo \<leftarrow> nth_opt (PI_tab T) (fi_p r);
       hi \<leftarrow> nth_opt (PI_tab T) (fi_q r);
       E \<leftarrow> fold_opt (\<lambda>k E. sub_at E k (fi_n r)) [Suc lo..<Suc hi] E;
       let x = wrap32 (fi_n r * int (length [Suc lo..<Suc hi]));
       _ \<leftarrow> assert_o (list_all (\<lambda>y. - (2 ^ 31) \<le> x * int (pp_e y) \<and> x * int (pp_e y) < 2 ^ 31)
                         (fi_f r));
       E \<leftarrow> sub_fact_o E x (fi_f r);
       Some (E, cnt + x, fi_q r, lastpi, nextpi) }
     else do {
       lastpi \<leftarrow> (if fi_p r = lastp \<and> nextpi \<noteq> 0 then Some nextpi else pi_fn T (fi_p r));
       nextpi \<leftarrow> pi_fn T (fi_q r);
       _ \<leftarrow> assert_o (fi_p r + 1 > maxp);
       a \<leftarrow> divo N (fi_p r + 1);
       b \<leftarrow> divo N (fi_q r);
       _ \<leftarrow> (if fi_q r \<le> sqrtN then do {
               b2 \<leftarrow> divo N (fi_q r * fi_q r);
               _ \<leftarrow> assert_o (b + b2 = fi_n r);
               a2 \<leftarrow> divo N ((fi_p r + 1) * (fi_p r + 1));
               assert_o (a + a2 = fi_n r) }
             else assert_o (a = fi_n r \<and> b = fi_n r));
       let x = fi_n r * (nextpi - lastpi);
       f \<leftarrow> fact_of T (fi_m r);
       E \<leftarrow> sub_fact_o E x f;
       Some (E, cnt + x, fi_q r, lastpi, nextpi) } })"

definition fac_verify :: "tables \<Rightarrow> fac \<Rightarrow> (int list \<times> int) option" where
  "fac_verify T v = do {
     let N = fac_N v; let sqrtN = c_sqrt N; let t = fac_t v;
     s \<leftarrow> fac_s T t;
     maxpi \<leftarrow> nth_opt (PI_tab T) (s - 1);
     maxp \<leftarrow> P_at T maxpi;
     E \<leftarrow> valuations T N maxpi;
     (E, cnt, lastp, lastpi, nextpi) \<leftarrow>
        fold_opt (verify_item T N t sqrtN maxp) (fac_L v) (E, 0, 0, 0, 0);
     _ \<leftarrow> assert_o (list_all (\<lambda>x. x \<ge> 0) (tl E));
     Some (E, cnt) }"

text \<open>
  \<^verbatim>\<open>tfac\<close> in exact mode.  \<open>tfac_run\<close> also returns what the source has at hand when it
  returns \<open>cnt\<close>: the certificate, the final \<open>E\<close> and the remainder \<open>q\<close>.
\<close>

record tfac_result =
  res_cnt :: int
  res_cert :: "fac option"
  res_E :: "int list"
  res_q :: int

definition tfac_run :: "tables \<Rightarrow> int \<Rightarrow> int \<Rightarrow> bool \<Rightarrow> bool \<Rightarrow> tfac_result option" where
  "tfac_run T N t fast verify = do {
     ph \<leftarrow> tfac_phase1 T N t fast verify;
     (maxpi, E, cnt, v) \<leftarrow>
       (if \<not> fast then do {
          j0 \<leftarrow> cdiv t (ph_s ph);
          (E, cnt, v) \<leftarrow> std_greedy T t (ph_Ms ph) (ph_numm ph)
                           (ph_maxpi ph, nat j0, ph_E ph, sum_list (ph_E ph), ph_cnt ph, ph_v ph);
          Some (ph_maxpi ph, E, cnt, v) }
        else fast_greedy T t (ph_s ph) (ph_Ms ph) (ph_maxm ph) (ph_maxpi ph) (ph_E ph) (ph_cnt ph) (ph_v ph));
     maxpi \<leftarrow> skip_zero E maxpi;
     q \<leftarrow> closing T t maxpi E;
     _ \<leftarrow> (if verify then (case v of None \<Rightarrow> None | Some w \<Rightarrow> map_option (\<lambda>_. ()) (fac_verify T w))
           else Some ());
     Some \<lparr>res_cnt = cnt, res_cert = v, res_E = E, res_q = q\<rparr> }"

definition tfac :: "tables \<Rightarrow> int \<Rightarrow> int \<Rightarrow> bool \<Rightarrow> bool \<Rightarrow> int option" where
  "tfac T N t fast verify = map_option res_cnt (tfac_run T N t fast verify)"

section \<open>The counter \<^verbatim>\<open>tfac\<close> in feasibility mode\<close>

text \<open>
  With \<^verbatim>\<open>feasible\<close> set, \<^verbatim>\<open>tfac\<close> returns after the first phase (lines 413--417):
  \<^verbatim>\<open>long double ebits = 0, epsilon = 0.0000000000000001L;\<close>
  \<^verbatim>\<open>for ( i = 1 ; i <= maxpi ; i++ ) ebits += E[i]*log(P[i]+epsilon); // make sure we get an upper bound\<close>
  \<^verbatim>\<open>return cnt + floorl(ebits/log(t-epsilon));\<close>

  The arithmetic is that of the x86-64 ABI: \<^verbatim>\<open>double\<close> has 53 significant bits and
  \<^verbatim>\<open>long double\<close> 64, and every operation rounds its exact result to the nearest value
  of its type, ties to even.  A floating-point number is the rational number it stands
  for; \<open>fl_round p x\<close> rounds \<open>x\<close> to \<open>p\<close> significant bits.  The exponent range is not
  modelled (no overflow, no subnormal numbers), which is exact for the magnitudes that
  occur here.

  The types of the operations are those of C: \<^verbatim>\<open>P[i]+epsilon\<close> and \<^verbatim>\<open>t-epsilon\<close> are
  \<^verbatim>\<open>long double\<close>; \<^verbatim>\<open>log\<close> is the function of \<^verbatim>\<open>math.h\<close> on \<^verbatim>\<open>double\<close>, so its argument is
  converted to \<^verbatim>\<open>double\<close>; \<^verbatim>\<open>E[i]*log(...)\<close> is a product of two \<^verbatim>\<open>double\<close>; the sum and the
  quotient are \<^verbatim>\<open>long double\<close>; the value returned is converted to \<^verbatim>\<open>int64_t\<close>, which
  truncates and is undefined outside 64 bits.  \<^verbatim>\<open>log\<close> belongs to the C library and not
  to the program: it is the parameter \<open>lg\<close>, a function from \<^verbatim>\<open>double\<close> to \<^verbatim>\<open>double\<close>.
\<close>

definition scale2 :: "int \<Rightarrow> rat" where
  "scale2 e = (if 0 \<le> e then 2 ^ nat e else 1 / 2 ^ nat (- e))"

definition round_even :: "rat \<Rightarrow> int" where
  "round_even y = (let m = \<lfloor>y\<rfloor>; r = y - of_int m
                  in if r < 1 / 2 then m else if 1 / 2 < r then m + 1
                     else if even m then m else m + 1)"

text \<open>
  For \<open>x \<noteq> 0\<close> the exponent \<open>e\<close> is the one with \<open>2^(p-1) \<le> |x| / 2^e < 2^p\<close>; it is found
  from the bit lengths of the numerator and the denominator of \<open>|x|\<close>.
\<close>

definition fl_round :: "nat \<Rightarrow> rat \<Rightarrow> rat" where
  "fl_round p x =
     (if x = 0 then 0
      else let a = \<bar>x\<bar>;
               k = bitlen (fst (quotient_of a)) - bitlen (snd (quotient_of a));
               e = (if a / scale2 (k - int p) < 2 ^ p then k - int p else k - int p + 1)
           in sgn x * of_int (round_even (a / scale2 e)) * scale2 e)"

definition to_double :: "rat \<Rightarrow> rat" where
  "to_double x = fl_round 53 x"

definition to_ldouble :: "rat \<Rightarrow> rat" where
  "to_ldouble x = fl_round 64 x"

definition mul_d :: "rat \<Rightarrow> rat \<Rightarrow> rat" where
  "mul_d x y = to_double (x * y)"

definition add_ld :: "rat \<Rightarrow> rat \<Rightarrow> rat" where
  "add_ld x y = to_ldouble (x + y)"

definition sub_ld :: "rat \<Rightarrow> rat \<Rightarrow> rat" where
  "sub_ld x y = to_ldouble (x - y)"

definition div_ld :: "rat \<Rightarrow> rat \<Rightarrow> rat" where
  "div_ld x y = to_ldouble (x / y)"

text \<open>The constant \<^verbatim>\<open>0.0000000000000001L\<close>, and the conversion of a floating-point value to an integer.\<close>

definition epsilon :: rat where
  "epsilon = to_ldouble (1 / 10 ^ 16)"

definition c_trunc :: "rat \<Rightarrow> int" where
  "c_trunc x = (if 0 \<le> x then \<lfloor>x\<rfloor> else \<lceil>x\<rceil>)"

text \<open>The loop over the primes, and the value returned.\<close>

definition ebits_sum :: "(rat \<Rightarrow> rat) \<Rightarrow> tables \<Rightarrow> nat \<Rightarrow> int list \<Rightarrow> rat option" where
  "ebits_sum lg T maxpi E =
     fold_opt (\<lambda>i ebits. do {
         p \<leftarrow> P_at T i;
         ei \<leftarrow> nth_opt E (int i);
         Some (add_ld ebits (mul_d (to_double (of_int ei)) (lg (to_double (add_ld (of_int p) epsilon))))) })
       [1..<Suc maxpi] 0"

definition feasible_count :: "(rat \<Rightarrow> rat) \<Rightarrow> tables \<Rightarrow> int \<Rightarrow> phase1 \<Rightarrow> int option" where
  "feasible_count lg T t ph = do {
     ebits \<leftarrow> ebits_sum lg T (ph_maxpi ph) (ph_E ph);
     let d = lg (to_double (sub_ld (of_int t) epsilon));
     _ \<leftarrow> assert_o (d \<noteq> 0);
     let r = add_ld (of_int (ph_cnt ph)) (of_int \<lfloor>div_ld ebits d\<rfloor>);
     _ \<leftarrow> assert_o (- (2 ^ 63) \<le> r \<and> r < 2 ^ 63);
     Some (c_trunc r) }"

definition tfac_feasible :: "(rat \<Rightarrow> rat) \<Rightarrow> tables \<Rightarrow> int \<Rightarrow> int \<Rightarrow> bool \<Rightarrow> bool \<Rightarrow> int option" where
  "tfac_feasible lg T N t fast verify = do {
     ph \<leftarrow> tfac_phase1 T N t fast verify;
     feasible_count lg T t ph }"

section \<open>The search \<^verbatim>\<open>tbound\<close>\<close>

text \<open>
  \<^verbatim>\<open>tbound\<close> up to \<^verbatim>\<open>if ( ! exhaustive ) return tmin;\<close> (lines 592--611).
  \<^verbatim>\<open>while ( cnt < N ) cnt = tfac(N,--t,fast,0,verbosity,verify,0);\<close>
\<close>

definition tbound_descend ::
  "tables \<Rightarrow> int \<Rightarrow> bool \<Rightarrow> bool \<Rightarrow> int \<times> int \<Rightarrow> (int \<times> int, int \<times> int) ctl option" where
  "tbound_descend T N fast verify = (\<lambda>(t, cnt).
     if cnt < N then (case tfac T N (t - 1) fast verify of None \<Rightarrow> None
                      | Some c \<Rightarrow> Some (Next (t - 1, c)))
     else Some (Done (t, cnt)))"

text \<open>
  The next value of \<open>t\<close> is \<^verbatim>\<open>round(exp(log(t)+(cnt-N)*log(t)/N))\<close>, a floating point
  value, which is then clamped:
  \<^verbatim>\<open>if ( t <= tmin ) t = max((3*tmin+tmax)/4,tmin+1);\<close>
  \<^verbatim>\<open>if ( t >= tmax ) t = min((tmin+3*tmax)/4,tmax-1);\<close>
  The floating point expression is a parameter \<open>probe\<close> of the model, so that what is
  proved holds whatever it returns.
\<close>

definition clamp_probe :: "int \<Rightarrow> int \<Rightarrow> int \<Rightarrow> int" where
  "clamp_probe tmin tmax t0 =
     (let t = (if t0 \<le> tmin then max (c_div (3 * tmin + tmax) 4) (tmin + 1) else t0)
      in if t \<ge> tmax then min (c_div (tmin + 3 * tmax) 4) (tmax - 1) else t)"

text \<open>
  \<^verbatim>\<open>while ( tmin < tmax-1 ) {\<close>
  \<^verbatim>\<open>  if ( cnt >= N ) tmin = max(t,tmin); else tmax = min(t,tmax);\<close>
  \<^verbatim>\<open>  t = ...;  cnt = tfac(N,t,fast,0,verbosity,verify,0); }\<close>
\<close>

definition tbound_bisect ::
  "(int \<Rightarrow> int \<Rightarrow> int \<Rightarrow> int) \<Rightarrow> tables \<Rightarrow> int \<Rightarrow> bool \<Rightarrow> bool
     \<Rightarrow> int \<times> int \<times> int \<times> int \<Rightarrow> (int \<times> int \<times> int \<times> int, int \<times> int) ctl option" where
  "tbound_bisect probe T N fast verify = (\<lambda>(t, cnt, tmin, tmax).
     if tmin < tmax - 1 then
       (let tmin = (if cnt \<ge> N then max t tmin else tmin);
            tmax = (if cnt \<ge> N then tmax else min t tmax);
            t = clamp_probe tmin tmax (probe t cnt N)
        in case tfac T N t fast verify of None \<Rightarrow> None
           | Some cnt \<Rightarrow> Some (Next (t, cnt, tmin, tmax)))
     else Some (Done (tmin, tmax)))"

text \<open>
  \<^verbatim>\<open>assert (a*5 <= 2*b && a*4 >= b); t = cdiv(a*N,b); cnt = tfac(N,t,...); ...\<close>
  \<^verbatim>\<open>tmin = t, tmax = (2*N)/5; ...; assert (tmax < (2*N)/5); if ( ! exhaustive ) return tmin;\<close>
\<close>

definition tbound ::
  "(int \<Rightarrow> int \<Rightarrow> int \<Rightarrow> int) \<Rightarrow> tables \<Rightarrow> int \<Rightarrow> int \<Rightarrow> int \<Rightarrow> bool \<Rightarrow> bool \<Rightarrow> int option" where
  "tbound probe T N a b fast verify = do {
     _ \<leftarrow> assert_o (a * 5 \<le> 2 * b \<and> a * 4 \<ge> b);
     t0 \<leftarrow> cdiv (a * N) b;
     cnt0 \<leftarrow> tfac T N t0 fast verify;
     (t, cnt) \<leftarrow> while_opt (tbound_descend T N fast verify) (t0, cnt0);
     (tmin, tmax) \<leftarrow> while_opt (tbound_bisect probe T N fast verify) (t, cnt, t, c_div (2 * N) 5);
     _ \<leftarrow> assert_o (tmax < c_div (2 * N) 5);
     Some tmin }"

section \<open>Notions used in the statements\<close>

text \<open>
  The tables that \<open>egs_setup 8 21\<close> builds (see \<open>setup_8_21\<close> below); the concrete runs of
  this theory use them.
\<close>

definition tabs_8_21 :: tables where
  "tabs_8_21 = \<lparr>P_tab = [1, 2, 3, 5, 7], PI_tab = [0, 0, 1, 2, 2, 3, 3, 4, 4],
     F_tab =
       [PP 0 0, PP 4 1, PP 2 1, PP 0 0, PP 3 1, PP 2 1, PP 0 0, PP 2 2,
        PP 0 0, PP 4 1, PP 0 0, PP 3 1, PP 0 0, PP 2 1, PP 0 0, PP 0 0,
        PP 3 1, PP 1 2, PP 0 0, PP 2 2, PP 1 1, PP 0 0, PP 1 4, PP 0 0,
        PP 4 1, PP 1 1, PP 0 0, PP 2 1, PP 1 2, PP 0 0, PP 3 1, PP 1 1,
        PP 0 0, PP 1 3, PP 0 0, PP 2 1, PP 1 1, PP 0 0, PP 1 2, PP 0 0,
        PP 1 1, PP 0 0],
     M_tab =
       [0, 15, 40, 13, 38, 11, 35, 9, 33, 7, 30, 0, 27, 0, 24, 4, 22, 0, 19,
        0, 16, 1],
     MAXP = 8, MAXPI = 4, MAXM = 21\<rparr>"

text \<open>
  A certificate for the target \<open>t\<close>, each of whose items has \<open>m * (p + 1) \<ge> t\<close>.
\<close>

definition cert_ok :: "int \<Rightarrow> fac option \<Rightarrow> bool" where
  "cert_ok t v = (case v of None \<Rightarrow> True
                  | Some w \<Rightarrow> fac_t w = t \<and> list_all (\<lambda>r. t \<le> fi_m r * (fi_p r + 1)) (fac_L w))"

text \<open>The invariant of the bisection of \<^verbatim>\<open>tbound\<close>.\<close>

definition bracket_inv :: "tables \<Rightarrow> int \<Rightarrow> bool \<Rightarrow> bool \<Rightarrow> int \<times> int \<times> int \<times> int \<Rightarrow> bool" where
  "bracket_inv T N fast verify = (\<lambda>(t, cnt, tmin, tmax).
      tfac T N t fast verify = Some cnt
      \<and> (\<exists>c. tfac T N tmin fast verify = Some c \<and> N \<le> c)
      \<and> (tmax = c_div (2 * N) 5 \<or> (\<exists>c. tfac T N tmax fast verify = Some c \<and> c < N))
      \<and> tmin \<le> t \<and> (t = tmin \<or> t < tmax)
      \<and> (tmin < tmax \<or> tmax = c_div (2 * N) 5))"

text \<open>
  The counts of \<^verbatim>\<open>tfac\<close> (exact mode, no certificate) for one \<open>N\<close> and all \<open>t\<close> with
  \<open>2t < N < 4t\<close>, in ascending order of \<open>t\<close>, and what it means for them to be
  non-increasing.
\<close>

definition counts :: "tables \<Rightarrow> bool \<Rightarrow> int \<Rightarrow> int option list" where
  "counts T fast N = map (\<lambda>t. tfac T N t fast False) [N div 4 + 1..(N - 1) div 2]"

definition nonincreasing :: "int option list \<Rightarrow> bool" where
  "nonincreasing cs = (list_all (\<lambda>c. c \<noteq> None) cs \<and> sorted_wrt (\<lambda>a b. the b \<le> the a) cs)"

text \<open>
  The value of a factorization, the product of its prime powers \<^verbatim>\<open>P[pi]^e\<close>, and the numbers
  all of whose prime factors are at most \<open>B\<close>.
\<close>

definition fact_value :: "nat list \<Rightarrow> pp list \<Rightarrow> nat" where
  "fact_value P f = prod_list (map (\<lambda>x. P ! pp_pi x ^ pp_e x) f)"

definition smooth :: "nat \<Rightarrow> nat \<Rightarrow> bool" where
  "smooth B m = (\<forall>p. is_prime p \<and> p dvd m \<longrightarrow> p \<le> B)"

text \<open>
  What the sieve leaves in \<^verbatim>\<open>M\<close>: a nonzero entry is the index of a prime up to \<open>B\<close> that
  divides \<open>q\<close>, and a zero entry says that no such prime divides \<open>q\<close>.
\<close>

definition sieve_ok :: "nat list \<Rightarrow> nat \<Rightarrow> nat \<Rightarrow> nat list \<Rightarrow> bool" where
  "sieve_ok P B maxm M0 =
     (\<forall>q. 1 \<le> q \<and> q \<le> maxm \<longrightarrow>
        (M0 ! q \<noteq> 0 \<longrightarrow> is_prime (P ! (M0 ! q)) \<and> P ! (M0 ! q) \<le> B \<and> P ! (M0 ! q) dvd q) \<and>
        (M0 ! q = 0 \<longrightarrow> (\<forall>p. is_prime p \<and> p \<le> B \<longrightarrow> \<not> p dvd q)))"

text \<open>
  A factorization is stored at offset \<open>off\<close> of the arena if a terminator follows it there;
  the entry of \<open>m\<close> is right if it is nonzero exactly for the smooth \<open>m\<close> and then leads to
  a stored factorization of value \<open>m\<close>.
\<close>

definition stored :: "pp list \<Rightarrow> nat \<Rightarrow> bool" where
  "stored F off = (off < length F \<and> (\<exists>x\<in>set (drop off F). pp_pi x = 0))"

definition entry_ok :: "nat list \<Rightarrow> nat \<Rightarrow> pp list \<Rightarrow> nat list \<Rightarrow> nat \<Rightarrow> bool" where
  "entry_ok P B F M m =
     ((M ! m \<noteq> 0 \<longleftrightarrow> smooth B m) \<and>
      (M ! m \<noteq> 0 \<longrightarrow> stored F (M ! m) \<and> fact_value P (fact_at F (M ! m)) = m))"





text \<open>
  The items as \<^verbatim>\<open>fac_verify\<close> tells them apart by \<^verbatim>\<open>r->q <= maxp\<close>: the items of the first
  phase are above \<open>maxp\<close>, the items of the second phase stand for one prime \<open>q\<close> up to
  \<open>maxp\<close>, with \<open>p = q - 1\<close>.  \<open>fits32\<close> is the range of an \<^verbatim>\<open>int32_t\<close>.
\<close>

definition high_item :: "int \<Rightarrow> fac_item \<Rightarrow> bool" where
  "high_item k r = (k < fi_q r)"



text \<open>
  The invariant of the first phase: unless some item has \<open>p \<ge> q\<close> (which \<^verbatim>\<open>fac_verify\<close>
  refuses), every item is above \<open>k\<close> and so is the bound \<open>pmin\<close> from which the next one
  starts.  The invariant of the second phase: behind the items \<open>L1\<close> of the first phase
  there are only items for one prime up to \<open>k\<close>.
\<close>

definition bad_item :: "fac_item \<Rightarrow> bool" where
  "bad_item r = (\<not> fi_p r < fi_q r)"

definition hb :: "int \<Rightarrow> fac option \<Rightarrow> int \<Rightarrow> bool" where
  "hb k v pmin = (\<exists>w. v = Some w \<and>
      (list_ex bad_item (fac_L w) \<or> (list_all (high_item k) (fac_L w) \<and> k \<le> pmin)))"


text \<open>
  The double nearest to \<open>ln 2\<close>, \<^verbatim>\<open>0x1.62e42fefa39efp-1\<close>, which is what a correctly rounding
  \<^verbatim>\<open>log\<close> returns for \<open>2.0\<close>; for \<open>4.0\<close> it returns twice that.
\<close>

definition ln2_double :: rat where
  "ln2_double = 6243314768165359 / 2 ^ 53"








section \<open>Capacity: value and safety\<close>

lemma c_div_nonneg: "0 \<le> a \<Longrightarrow> 0 < b \<Longrightarrow> c_div a b = a div b"
  by (simp add: c_div_def)

lemma div_mult_le_pos: "0 < (b::int) \<Longrightarrow> a div b * b \<le> a"
proof -
  assume b: "0 < b"
  have "a div b * b + a mod b = a" by simp
  moreover have "0 \<le> a mod b" using b by simp
  ultimately show ?thesis by linarith
qed

lemma fcnt_value:
  assumes "\<forall>x\<in>set f. pp_pi x < length E \<and> 0 < pp_e x" and "\<forall>v\<in>set E. 0 \<le> v"
  shows "fcnt E cap f = Some (Min (insert cap ((\<lambda>x. E ! pp_pi x div int (pp_e x)) ` set f)))"
  using assms
proof (induction f arbitrary: cap)
  case Nil
  then show ?case by simp
next
  case (Cons x f)
  let ?q = "E ! pp_pi x div int (pp_e x)"
  let ?S = "(\<lambda>x. E ! pp_pi x div int (pp_e x)) ` set f"
  from Cons.prems have x: "pp_pi x < length E" "0 < pp_e x" by simp_all
  with Cons.prems have "0 \<le> E ! pp_pi x" by simp
  with x have cd: "c_div (E ! pp_pi x) (int (pp_e x)) = ?q" by (simp add: c_div_nonneg)
  have "fcnt E cap (x # f) = fcnt E (min cap ?q) f" using x cd by simp
  also have "\<dots> = Some (Min (insert (min cap ?q) ?S))" using Cons.IH Cons.prems by simp
  also have "Min (insert (min cap ?q) ?S) = Min (insert cap (insert ?q ?S))"
  proof (cases "?S = {}")
    case True
    then show ?thesis by simp
  next
    case False
    then show ?thesis by (simp add: min.assoc)
  qed
  finally show ?case by simp
qed

lemma sub_fact_length: "length (sub_fact E e f) = length E"
  unfolding sub_fact_def by (induction f arbitrary: E) (simp_all add: sub_pp_def)

lemma sub_fact_other:
  "i \<notin> pp_pi ` set f \<Longrightarrow> sub_fact E e f ! i = E ! i"
  unfolding sub_fact_def by (induction f arbitrary: E) (simp_all add: sub_pp_def)

lemma sub_fact_at:
  assumes "distinct (map pp_pi f)" and "x \<in> set f" and "pp_pi x < length E"
  shows "sub_fact E e f ! pp_pi x = E ! pp_pi x - e * int (pp_e x)"
  using assms
proof (induction f arbitrary: E)
  case Nil
  then show ?case by simp
next
  case (Cons y f)
  show ?case
  proof (cases "x = y")
    case True
    have "sub_fact E e (y # f) = sub_fact (sub_pp e y E) e f" by (simp add: sub_fact_def)
    moreover have "pp_pi y \<notin> pp_pi ` set f" using Cons.prems(1) by simp
    ultimately have "sub_fact E e (y # f) ! pp_pi y = sub_pp e y E ! pp_pi y"
      by (simp add: sub_fact_other)
    then show ?thesis using True Cons.prems(3) by (simp add: sub_pp_def)
  next
    case False
    then have xf: "x \<in> set f" using Cons.prems(2) by simp
    have "pp_pi y \<notin> pp_pi ` set f" using Cons.prems(1) by simp
    then have ne: "pp_pi x \<noteq> pp_pi y" using xf by (metis imageI)
    have "sub_fact E e (y # f) ! pp_pi x = sub_fact (sub_pp e y E) e f ! pp_pi x"
      by (simp add: sub_fact_def)
    also have "\<dots> = sub_pp e y E ! pp_pi x - e * int (pp_e x)"
      using Cons.IH[of "sub_pp e y E"] Cons.prems xf by (simp add: sub_pp_def)
    also have "sub_pp e y E ! pp_pi x = E ! pp_pi x" using ne by (simp add: sub_pp_def)
    finally show ?thesis .
  qed
qed

text \<open>
  C5.  For a valuation vector \<open>E\<close> (every component nonnegative), a bound \<open>cap \<ge> 0\<close> and a
  recorded factorization \<open>f\<close> (indices inside \<open>E\<close>, exponents positive, each prime index
  once), \<open>fcnt E cap f\<close> is the minimum of \<open>cap\<close> and of the quotients
  \<open>\<lfloor>E[i] / e\<rfloor>\<close> over the pairs \<open>(i, e)\<close> of \<open>f\<close>; the result never exceeds \<open>cap\<close>, and
  taking that many copies of \<open>f\<close> out of \<open>E\<close> leaves every component nonnegative.
\<close>

theorem fcnt_capacity:
  assumes "\<forall>x\<in>set f. pp_pi x < length E \<and> 0 < pp_e x"
    and "distinct (map pp_pi f)"
    and "\<forall>v\<in>set E. 0 \<le> v"
    and "0 \<le> cap"
  shows "\<exists>c. fcnt E cap f = Some c
           \<and> c = Min (insert cap ((\<lambda>x. E ! pp_pi x div int (pp_e x)) ` set f))
           \<and> c \<le> cap
           \<and> (\<forall>v\<in>set (sub_fact E c f). 0 \<le> v)"
proof -
  let ?S = "(\<lambda>x. E ! pp_pi x div int (pp_e x)) ` set f"
  define c where "c = Min (insert cap ?S)"
  have val: "fcnt E cap f = Some c" unfolding c_def by (rule fcnt_value[OF assms(1,3)])
  have fin: "finite (insert cap ?S)" by simp
  have le_cap: "c \<le> cap" unfolding c_def using fin by (simp add: Min_le)
  have le_q: "c \<le> E ! pp_pi x div int (pp_e x)" if "x \<in> set f" for x
    unfolding c_def using that by (intro Min_le) auto
  have c0: "0 \<le> c"
  proof -
    have "\<forall>y\<in>insert cap ?S. 0 \<le> y"
    proof
      fix y assume "y \<in> insert cap ?S"
      then consider "y = cap" | x where "x \<in> set f" "y = E ! pp_pi x div int (pp_e x)" by auto
      then show "0 \<le> y"
      proof cases
        case 1
        then show ?thesis using assms(4) by simp
      next
        case 2
        then have "0 \<le> E ! pp_pi x" "0 < int (pp_e x)" using assms(1,3) by auto
        then show ?thesis using 2 by (simp add: pos_imp_zdiv_nonneg_iff)
      qed
    qed
    then show ?thesis unfolding c_def using fin by simp
  qed
  have nonneg: "0 \<le> v" if "v \<in> set (sub_fact E c f)" for v
  proof -
    from that obtain i where i: "i < length E" "v = sub_fact E c f ! i"
      by (auto simp: in_set_conv_nth sub_fact_length)
    show ?thesis
    proof (cases "i \<in> pp_pi ` set f")
      case False
      then have "v = E ! i" using i by (simp add: sub_fact_other)
      then show ?thesis using assms(3) i by simp
    next
      case True
      then obtain x where x: "x \<in> set f" "i = pp_pi x" by auto
      then have v: "v = E ! pp_pi x - c * int (pp_e x)"
        using i sub_fact_at[OF assms(2) x(1)] by simp
      have pos: "0 < int (pp_e x)" using assms(1) x by simp
      have "c * int (pp_e x) \<le> (E ! pp_pi x div int (pp_e x)) * int (pp_e x)"
        using le_q[OF x(1)] pos by (simp add: mult_right_mono)
      also have "\<dots> \<le> E ! pp_pi x"
        using pos by (rule div_mult_le_pos)
      finally show ?thesis using v by simp
    qed
  qed
  have "c = Min (insert cap ?S)" by (rule c_def)
  with val le_cap nonneg show ?thesis by blast
qed

theorem fcnt_capacity_witness:
  "fcnt [0, 11, 5, 2] 4 [PP 2 1, PP 1 3] = Some 3
     \<and> sub_fact [0, 11, 5, 2] 3 [PP 2 1, PP 1 3] = [0, 2, 2, 2]"
proof -
  have "\<exists>c. fcnt [0, 11, 5, 2] 4 [PP 2 1, PP 1 3] = Some c
           \<and> c = Min (insert 4 ((\<lambda>x. [0, 11, 5, 2] ! pp_pi x div int (pp_e x)) ` set [PP 2 1, PP 1 3]))
           \<and> c \<le> 4
           \<and> (\<forall>v\<in>set (sub_fact [0, 11, 5, 2] c [PP 2 1, PP 1 3]). 0 \<le> v)"
    by (rule fcnt_capacity) simp_all
  then show ?thesis by (simp add: c_div_def sub_fact_def sub_pp_def)
qed

section \<open>Loops\<close>

lemma while_opt_rule:
  fixes step :: "'s \<Rightarrow> ('s, 'r) ctl option"
  assumes "while_opt step s = Some r"
    and "I s"
    and "\<And>s s'. I s \<Longrightarrow> step s = Some (Next s') \<Longrightarrow> I s'"
    and "\<And>s r. I s \<Longrightarrow> step s = Some (Done r) \<Longrightarrow> Q r"
  shows "Q r"
proof -
  have gen: "st = step \<longrightarrow> I s0 \<longrightarrow> Q r0" if a: "while_opt st s0 = Some r0" for st s0 r0
  proof (rule while_opt.raw_induct[where P = "\<lambda>st s r. st = step \<longrightarrow> I s \<longrightarrow> Q r", OF _ a])
    fix w :: "('s \<Rightarrow> ('s, 'r) ctl option) \<Rightarrow> 's \<Rightarrow> 'r option" and st s r
    assume IH: "\<And>s b y. w s b = Some y \<Longrightarrow> s = step \<longrightarrow> I b \<longrightarrow> Q y"
      and eq: "(case st s of None \<Rightarrow> None | Some (Next s') \<Rightarrow> w st s' | Some (Done r) \<Rightarrow> Some r) = Some r"
    show "st = step \<longrightarrow> I s \<longrightarrow> Q r"
    proof (intro impI)
      assume st: "st = step" and Is: "I s"
      show "Q r"
      proof (cases "step s")
        case None
        then show ?thesis using eq st by simp
      next
        case (Some c)
        show ?thesis
        proof (cases c)
          case (Next s')
          then have "w step s' = Some r" using eq st Some by simp
          moreover have "I s'" using assms(3)[OF Is] Some Next by simp
          ultimately show ?thesis using IH by blast
        next
          case (Done r')
          then have "r' = r" using eq st Some by simp
          then show ?thesis using assms(4)[OF Is] Some Done by simp
        qed
      qed
    qed
  qed
  then show ?thesis using assms(1,2) by blast
qed

lemma fac_s_result:
  assumes "fac_s T t = Some s"
  shows "t \<le> s * (s - 1) \<and> 0 \<le> s \<and> s \<le> int (MAXP T)"
proof -
  from assms obtain s' where
    w: "while_opt (\<lambda>s. if s * (s - 1) < t then Some (Next (s + 1)) else Some (Done s)) (c_sqrt t) = Some s'"
    and le: "s' \<le> int (MAXP T)" and eq: "s' = s"
    by (auto simp: fac_s_def assert_o_def Let_def split: bind_splits if_splits)
  have "\<not> s' * (s' - 1) < t \<and> 0 \<le> s'"
    by (rule while_opt_rule[OF w, where I = "\<lambda>s. 0 \<le> s"])
       (auto simp: c_sqrt_def split: if_splits)
  then show ?thesis using le eq by auto
qed

lemma tfac_phase1_pre:
  assumes "tfac_phase1 T N t fast verify = Some ph"
  shows "10 \<le> N \<and> N < MAXN \<and> N < 4 * t \<and> 2 * t < N
         \<and> (\<exists>s. fac_s T t = Some s)
         \<and> (fast \<or> t \<le> int (MAXM T) + 1)
         \<and> (fast \<longrightarrow> (\<exists>k. pow_floor t 5 8 = Some k \<and> k \<le> int (MAXM T)))"
proof -
  from assms obtain s maxpi E where
    a1: "N \<ge> 10 \<and> N < MAXN \<and> 4 * t > N \<and> 2 * t < N"
    and a2: "fac_s T t = Some s"
    and a3: "nth_opt (PI_tab T) (s - 1) = Some maxpi"
    and a4: "valuations T N maxpi = Some E"
    and rest: "do {
     _ \<leftarrow> assert_o (fast \<or> t \<le> int (MAXM T) + 1);
     maxm0 \<leftarrow> (if fast then pow_floor t 5 8 else Some (t - 1));
     _ \<leftarrow> assert_o (maxm0 \<le> int (MAXM T));
     (Some ()) } \<noteq> None"
    unfolding tfac_phase1_def
    by (auto simp: assert_o_def Let_def split: bind_splits if_splits)
  from rest have "(fast \<or> t \<le> int (MAXM T) + 1)
      \<and> (fast \<longrightarrow> (\<exists>k. pow_floor t 5 8 = Some k \<and> k \<le> int (MAXM T)))"
    by (auto simp: assert_o_def split: bind_splits if_splits)
  with a1 a2 show ?thesis by auto
qed

section \<open>Concrete tables\<close>

lemma setup_8_21: "egs_setup 8 21 = Some tabs_8_21"
  unfolding tabs_8_21_def by code_simp

section \<open>The items of a certificate\<close>

lemma fac_extend_D:
  "fac_extend w n m f p q c = Some w' \<Longrightarrow>
     w' = w\<lparr>fac_L := fac_L w @ [Fac_item n m f p q c]\<rparr> \<and> fac_t w \<le> m * (p + 1)"
  by (auto simp: fac_extend_def split: if_splits)

lemma fac_extend_mp_D:
  "fac_extend_mp w n m f p = Some w' \<Longrightarrow>
     w' = w\<lparr>fac_L := fac_L w @ [Fac_item n m f (p - 1) p 1]\<rparr> \<and> fac_t w \<le> m * p"
  by (auto simp: fac_extend_mp_def dest!: fac_extend_D)

lemma fac_extend_mp2_D:
  "fac_extend_mp2 T w n m f i = Some w' \<Longrightarrow>
     \<exists>p. P_at T i = Some p
        \<and> w' = w\<lparr>fac_L := fac_L w @ [Fac_item n (m * p) (PP i 1 # f) (p - 1) p 1]\<rparr>
        \<and> fac_t w \<le> m * p * p"
  by (auto simp: fac_extend_mp2_def split: bind_splits dest!: fac_extend_mp_D)

lemma fac_extend_m_D:
  "fac_extend_m T w n m c = Some w' \<Longrightarrow>
     \<exists>p mp f'. c \<noteq> [] \<and> P_at T (pp_pi (hd c)) = Some p
        \<and> w' = w\<lparr>fac_L := fac_L w @ [Fac_item n mp f' (p - 1) p 1]\<rparr>
        \<and> fac_t w \<le> mp * p"
  by (cases c) (auto simp: fac_extend_m_def split: bind_splits dest!: fac_extend_mp_D)

lemmas ext_D = fac_extend_D fac_extend_mp_D fac_extend_mp2_D fac_extend_m_D

lemma opt_extend_Some:
  "opt_extend v g = Some v' \<longleftrightarrow>
     (v = None \<and> v' = None) \<or> (\<exists>w w'. v = Some w \<and> g w = Some w' \<and> v' = Some w')"
  by (cases v) (auto simp: opt_extend_def)

lemma tier_a_ok:
  assumes "tier_a T N t sqrtN (it, m, E, cnt, v) = Some (p', it', m', E', cnt', v')" and "cert_ok t v"
  shows "cert_ok t v'"
proof -
  have "(\<lambda>(p, it, m, E, cnt, v). cert_ok t v) (p', it', m', E', cnt', v')"
    by (rule while_opt_rule[OF assms(1)[unfolded tier_a_def],
          where I = "\<lambda>(it, m, E, cnt, v). cert_ok t v"])
       (use assms(2) in \<open>auto simp: Let_def opt_extend_Some cert_ok_def split: bind_splits if_splits
            dest!: ext_D\<close>)
  then show ?thesis by simp
qed

lemma tier_b_ok:
  assumes "tier_b T N t plmmax (p, it, m, pmmax, n, pnmax, pmin, E, cnt, v) = Some (m', E', cnt', v')"
    and "cert_ok t v"
  shows "cert_ok t v'"
proof -
  have "(\<lambda>(m, E, cnt, v). cert_ok t v) (m', E', cnt', v')"
    by (rule while_opt_rule[OF assms(1)[unfolded tier_b_def],
          where I = "\<lambda>(p, it, m, pmmax, n, pnmax, pmin, E, cnt, v). cert_ok t v"])
       (use assms(2) in \<open>auto simp: Let_def opt_extend_Some cert_ok_def split: bind_splits if_splits
            dest!: ext_D\<close>)
  then show ?thesis by simp
qed

lemma tier_c_inner_ok:
  assumes "tier_c_inner T N m pmax (pmin, n, pnmax, lastpi, E, cnt, v) = Some (pmin', lastpi', E', cnt', v')"
    and "cert_ok t v"
  shows "cert_ok t v'"
proof -
  have "(\<lambda>(pmin, lastpi, E, cnt, v). cert_ok t v) (pmin', lastpi', E', cnt', v')"
    by (rule while_opt_rule[OF assms(1)[unfolded tier_c_inner_def],
          where I = "\<lambda>(pmin, n, pnmax, lastpi, E, cnt, v). cert_ok t v"])
       (use assms(2) in \<open>auto simp: Let_def opt_extend_Some cert_ok_def split: bind_splits if_splits
            dest!: ext_D\<close>)
  then show ?thesis by simp
qed

lemma tier_c_ok:
  assumes "tier_c T N t (m, pmin, lastpi, E, cnt, v) = Some (m', lastpi', E', cnt', v')"
    and "cert_ok t v"
  shows "cert_ok t v'"
proof -
  have "(\<lambda>(m, lastpi, E, cnt, v). cert_ok t v) (m', lastpi', E', cnt', v')"
    by (rule while_opt_rule[OF assms(1)[unfolded tier_c_def],
          where I = "\<lambda>(m, pmin, lastpi, E, cnt, v). cert_ok t v"])
       (use assms(2) in \<open>auto simp: Let_def opt_extend_Some split: bind_splits if_splits
            dest: tier_c_inner_ok\<close>)
  then show ?thesis by simp
qed

lemma bands_ok:
  assumes "bands T N t lastpi cnt v = Some (cnt', v')" and "cert_ok t v"
  shows "cert_ok t v'"
  using assms unfolding bands_def
  by (auto simp: Let_def opt_extend_Some cert_ok_def split: bind_splits if_splits dest!: ext_D)

lemma tfac_phase1_ok:
  assumes "tfac_phase1 T N t fast verify = Some ph"
  shows "cert_ok t (ph_v ph)"
proof -
  have a: "cert_ok t (if verify then Some (fac_alloc N t) else None)"
    by (simp add: cert_ok_def fac_alloc_def)
  show ?thesis
    using assms a unfolding tfac_phase1_def
    by (auto simp: Let_def opt_extend_Some split: bind_splits if_splits
        dest!: tier_a_ok tier_b_ok tier_c_ok bands_ok)
qed

lemma std_greedy_ok:
  assumes "std_greedy T t Ms numm (i, j, E, pcnt, cnt, v) = Some (E', cnt', v')" and "cert_ok t v"
  shows "cert_ok t v'"
proof -
  have "(\<lambda>(E, cnt, v). cert_ok t v) (E', cnt', v')"
    by (rule while_opt_rule[OF assms(1)[unfolded std_greedy_def],
          where I = "\<lambda>(i, j, E, pcnt, cnt, v). cert_ok t v"])
       (use assms(2) in \<open>auto simp: Let_def opt_extend_Some cert_ok_def split: bind_splits if_splits
            dest!: ext_D\<close>)
  then show ?thesis by simp
qed

lemma take_mp_ok:
  "take_mp T i p e m f (E, cnt, v) = Some (E', cnt', v') \<Longrightarrow> cert_ok t v \<Longrightarrow> cert_ok t v'"
  unfolding take_mp_def
  by (auto simp: opt_extend_Some cert_ok_def split: bind_splits if_splits dest!: ext_D)

lemma take_mp2_ok:
  "take_mp2 T i e m f (E, cnt, v) = Some (E', cnt', v') \<Longrightarrow> cert_ok t v \<Longrightarrow> cert_ok t v'"
  unfolding take_mp2_def
  by (auto simp: opt_extend_Some cert_ok_def split: bind_splits if_splits dest!: ext_D)

lemma fast_prime_ok:
  assumes "fast_prime T t Ms i (j, E, cnt, v) = Some (j', E', cnt', v')" and "cert_ok t v"
  shows "cert_ok t v'"
  using assms unfolding fast_prime_def
  by (auto simp: Let_def split: bind_splits if_splits) (blast dest: take_mp_ok take_mp2_ok)+

lemma fast_pass_ok:
  assumes "fast_pass T t Ms pimin (i, j, E, cnt, v) = Some (E', cnt', v')" and "cert_ok t v"
  shows "cert_ok t v'"
proof -
  have "(\<lambda>(E, cnt, v). cert_ok t v) (E', cnt', v')"
    by (rule while_opt_rule[OF assms(1)[unfolded fast_pass_def],
          where I = "\<lambda>(i, j, E, cnt, v). cert_ok t v"])
       (use assms(2) in \<open>auto split: bind_splits if_splits dest: fast_prime_ok\<close>)
  then show ?thesis by simp
qed

lemma fast_pack_ok:
  assumes "fast_pack T t s good (maxpi, E, cnt, v) = Some (maxpi', E', c', cnt', v')" and "cert_ok t v"
  shows "cert_ok t v'"
proof -
  have "(\<lambda>(maxpi, E, c, cnt, v). cert_ok t v) (maxpi', E', c', cnt', v')"
    by (rule while_opt_rule[OF assms(1)[unfolded fast_pack_def],
          where I = "\<lambda>(maxpi, E, cnt, v). cert_ok t v"])
       (use assms(2) in \<open>auto simp: Let_def opt_extend_Some cert_ok_def split: bind_splits if_splits
            dest!: ext_D\<close>)
  then show ?thesis by simp
qed

lemma fast_greedy_ok:
  assumes "fast_greedy T t s Ms maxm maxpi E cnt v = Some (maxpi', E', cnt', v')" and "cert_ok t v"
  shows "cert_ok t v'"
  using assms unfolding fast_greedy_def
  by (auto simp: Let_def split: bind_splits if_splits) (blast dest: fast_pass_ok fast_pack_ok)+

lemma tfac_run_ok:
  assumes "tfac_run T N t fast verify = Some res"
  shows "cert_ok t (res_cert res)"
  using assms unfolding tfac_run_def
  by (auto simp: Let_def split: bind_splits if_splits)
     (blast dest: tfac_phase1_ok std_greedy_ok fast_greedy_ok)+

lemma fold_opt_all:
  assumes "fold_opt g xs s = Some s'" and "x \<in> set xs"
  shows "\<exists>a b. g x a = Some b"
  using assms
proof (induction xs arbitrary: s)
  case Nil
  then show ?case by simp
next
  case (Cons y ys)
  then obtain s1 where s1: "g y s = Some s1" "fold_opt g ys s1 = Some s'"
    by (auto split: option.splits)
  show ?case
  proof (cases "x = y")
    case True
    then show ?thesis using s1 by blast
  next
    case False
    then show ?thesis using Cons.IH[OF s1(2)] Cons.prems(2) by simp
  qed
qed

lemma verify_item_reach:
  "verify_item T N t sqrtN maxp r a = Some b \<Longrightarrow> t \<le> fi_m r * (fi_p r + 1)"
  by (cases a) (auto simp: verify_item_def assert_o_def split: bind_splits if_splits)

lemma fac_verify_reach:
  assumes "fac_verify T w = Some x" and "r \<in> set (fac_L w)"
  shows "fac_t w \<le> fi_m r * (fi_p r + 1)"
proof -
  from assms(1) obtain s maxpi maxp E st where
    "fold_opt (verify_item T (fac_N w) (fac_t w) (c_sqrt (fac_N w)) maxp) (fac_L w) (E, 0, 0, 0, 0) = Some st"
    unfolding fac_verify_def by (auto simp: Let_def split: bind_splits)
  from fold_opt_all[OF this assms(2)] show ?thesis by (auto dest: verify_item_reach)
qed

text \<open>
  C10.  Every item appended to a certificate for the target \<open>t\<close> has \<open>m * (p + 1) \<ge> t\<close>:
  \<^verbatim>\<open>fac_extend\<close> appends the item only if its assertion holds; every item of the
  certificate that a run of \<^verbatim>\<open>tfac\<close> has built satisfies it; and \<^verbatim>\<open>fac_verify\<close> returns only
  if every item of the certificate it replays satisfies it.
\<close>

theorem certificate_records_reach_t:
  "(fac_extend w n m f p q c = Some w' \<longrightarrow>
      fac_L w' = fac_L w @ [Fac_item n m f p q c] \<and> fac_t w \<le> m * (p + 1))
   \<and> (tfac_run T N t fast verify = Some res \<longrightarrow>
        (\<forall>u. res_cert res = Some u \<longrightarrow> (\<forall>r\<in>set (fac_L u). t \<le> fi_m r * (fi_p r + 1))))
   \<and> (fac_verify T u' = Some x \<longrightarrow> (\<forall>r\<in>set (fac_L u'). fac_t u' \<le> fi_m r * (fi_p r + 1)))"
proof (intro conjI impI allI ballI)
  assume "fac_extend w n m f p q c = Some w'"
  then show "fac_L w' = fac_L w @ [Fac_item n m f p q c]" and "fac_t w \<le> m * (p + 1)"
    by (auto dest!: fac_extend_D)
next
  fix u r
  assume "tfac_run T N t fast verify = Some res" "res_cert res = Some u" "r \<in> set (fac_L u)"
  then show "t \<le> fi_m r * (fi_p r + 1)"
    using tfac_run_ok[of T N t fast verify res] by (auto simp: cert_ok_def list_all_iff)
next
  fix r
  assume "fac_verify T u' = Some x" "r \<in> set (fac_L u')"
  then show "fac_t u' \<le> fi_m r * (fi_p r + 1)" by (rule fac_verify_reach)
qed

lemma run_14_5: "map_option (\<lambda>r. map_option (\<lambda>u. length (fac_L u)) (res_cert r))
    (tfac_run tabs_8_21 14 5 False True) = Some (Some 4)"
  by code_simp

theorem certificate_records_witness:
  "\<exists>res u. tfac_run tabs_8_21 14 5 False True = Some res \<and> res_cert res = Some u
      \<and> length (fac_L u) = 4 \<and> list_all (\<lambda>r. 5 \<le> fi_m r * (fi_p r + 1)) (fac_L u)"
proof -
  from run_14_5 obtain res u where
    r: "tfac_run tabs_8_21 14 5 False True = Some res" "res_cert res = Some u" "length (fac_L u) = 4"
    by auto
  have "\<forall>r\<in>set (fac_L u). 5 \<le> fi_m r * (fi_p r + 1)"
    using certificate_records_reach_t[of _ _ _ _ _ _ _ _ tabs_8_21 14 5 False True res] r by blast
  then show ?thesis using r by (auto simp: list_all_iff)
qed

text \<open>
  C7, as amended.  \<^verbatim>\<open>tfac\<close> aborts unless \<open>10 \<le> N < 2^48 - 1\<close> and \<open>2t < N < 4t\<close>, unless the
  least \<open>s\<close> with \<open>s (s - 1) \<ge> t\<close> is at most \<^verbatim>\<open>MAXP\<close> (which fails as soon as
  \<open>MAXP (MAXP - 1) < t\<close>), and unless the cofactor bound, \<open>t - 1\<close> for the standard variant
  and \<open>\<lfloor>t^0.625\<rfloor>\<close> for the fast one, is at most \<^verbatim>\<open>MAXM\<close>.
\<close>

theorem tfac_contract:
  assumes "N < 10 \<or> MAXN \<le> N \<or> 4 * t \<le> N \<or> N \<le> 2 * t
           \<or> int (MAXP T) * (int (MAXP T) - 1) < t
           \<or> (\<not> fast \<and> int (MAXM T) + 1 < t)
           \<or> (fast \<and> (\<exists>k. pow_floor t 5 8 = Some k \<and> int (MAXM T) < k))"
  shows "tfac T N t fast verify = None"
proof (rule ccontr)
  assume "tfac T N t fast verify \<noteq> None"
  then obtain ph where ph: "tfac_phase1 T N t fast verify = Some ph"
    unfolding tfac_def tfac_run_def by (auto split: bind_splits)
  note pre = tfac_phase1_pre[OF ph]
  from pre obtain s where s: "fac_s T t = Some s" by blast
  from fac_s_result[OF s] have s1: "t \<le> s * (s - 1)" "0 \<le> s" "s \<le> int (MAXP T)" by simp_all
  have tpos: "0 < t" using pre by linarith
  have "1 \<le> s"
  proof (rule ccontr)
    assume "\<not> 1 \<le> s"
    then have "s = 0" using s1(2) by linarith
    then show False using s1(1) tpos by simp
  qed
  then have "s * (s - 1) \<le> int (MAXP T) * (int (MAXP T) - 1)"
    using s1(3) by (intro mult_mono) auto
  then have "\<not> int (MAXP T) * (int (MAXP T) - 1) < t" using s1(1) by linarith
  with assms pre show False by auto
qed

theorem tfac_contract_witness:
  "(9::int) < 10 \<and> tfac tabs_8_21 9 3 False False = None
   \<and> tfac tabs_8_21 200 60 False False = None"
proof -
  have "tfac tabs_8_21 9 3 False False = None"
    by (rule tfac_contract) simp
  moreover have "tfac tabs_8_21 200 60 False False = None"
    by (rule tfac_contract) (simp add: tabs_8_21_def)
  ultimately show ?thesis by simp
qed

text \<open>
  The bound of the source is \<open>N \<ge> 10\<close>, not \<open>N \<ge> 14\<close>: for \<open>N = 13\<close> and \<open>t = 5\<close> both
  variants return 11.
\<close>

theorem tfac_accepts_N_13:
  "egs_setup 8 21 = Some tabs_8_21 \<and> tfac tabs_8_21 13 5 False False = Some 11
     \<and> tfac tabs_8_21 13 5 True False = Some 11"
proof -
  have "tfac tabs_8_21 13 5 False False = Some 11" by code_simp
  moreover have "tfac tabs_8_21 13 5 True False = Some 11" by code_simp
  ultimately show ?thesis using setup_8_21 by simp
qed

text \<open>
  The count is not monotone in \<open>t\<close>: for \<open>N = 55\<close> the fast variant returns 48 for
  \<open>t = 24\<close> and 49 for \<open>t = 25\<close>.
\<close>

theorem tfac_not_monotone:
  "egs_setup 8 21 = Some tabs_8_21
     \<and> tfac tabs_8_21 55 24 True False = Some 48 \<and> tfac tabs_8_21 55 25 True False = Some 49"
proof -
  have "tfac tabs_8_21 55 24 True False = Some 48" by code_simp
  moreover have "tfac tabs_8_21 55 25 True False = Some 49" by code_simp
  ultimately show ?thesis using setup_8_21 by simp
qed

section \<open>The search\<close>

lemma c_div_4_ge: "x div 4 \<le> c_div x 4"
proof (cases "x < 0")
  case True
  have "x div 4 \<le> - ((- x) div 4)" by linarith
  then show ?thesis using True by (simp add: c_div_def)
next
  case False
  then show ?thesis by (simp add: c_div_def)
qed

lemma tbound_20: "tbound (\<lambda>t cnt N. t) tabs_8_21 20 1 3 False False = Some 6"
  by code_simp

lemma tbound_descend_result:
  assumes "while_opt (tbound_descend T N fast verify) (t0, cnt0) = Some (t, cnt)"
    and "tfac T N t0 fast verify = Some cnt0"
  shows "tfac T N t fast verify = Some cnt \<and> N \<le> cnt"
proof -
  have "(\<lambda>(t, cnt). tfac T N t fast verify = Some cnt \<and> N \<le> cnt) (t, cnt)"
    by (rule while_opt_rule[OF assms(1), where I = "\<lambda>(t, cnt). tfac T N t fast verify = Some cnt"])
       (use assms(2) in \<open>auto simp: tbound_descend_def split: if_splits option.splits\<close>)
  then show ?thesis by simp
qed

lemma tbound_bisect_step:
  assumes Is: "bracket_inv T N fast verify (t, cnt, tmin, tmax)"
    and st: "tbound_bisect probe T N fast verify (t, cnt, tmin, tmax) = Some (Next (t', cnt', tmin', tmax'))"
  shows "bracket_inv T N fast verify (t', cnt', tmin', tmax')"
proof -
  let ?cnt = "\<lambda>t. tfac T N t fast verify"
  from st have cond: "tmin < tmax - 1" by (auto simp: tbound_bisect_def split: if_splits)
  from Is have i1: "?cnt t = Some cnt" and i2: "\<exists>c. ?cnt tmin = Some c \<and> N \<le> c"
    and i3: "tmax = c_div (2 * N) 5 \<or> (\<exists>c. ?cnt tmax = Some c \<and> c < N)"
    and i4: "tmin \<le> t" and i5: "t = tmin \<or> t < tmax"
    by (auto simp: bracket_inv_def)
  from st cond have tmin': "tmin' = (if cnt \<ge> N then max t tmin else tmin)"
    and tmax': "tmax' = (if cnt \<ge> N then tmax else min t tmax)"
    and t': "t' = clamp_probe tmin' tmax' (probe t cnt N)"
    and cnt': "?cnt t' = Some cnt'"
    by (auto simp: tbound_bisect_def Let_def split: option.splits)
  have lt: "tmin' < tmax'"
  proof (cases "cnt \<ge> N")
    case True
    then show ?thesis using tmin' tmax' i5 cond by auto
  next
    case False
    have "t \<noteq> tmin" using False i1 i2 by auto
    then show ?thesis using False tmin' tmax' i4 cond by auto
  qed
  have ge: "tmin' \<le> c_div (tmin' + 3 * tmax') 4"
  proof -
    have "tmin' \<le> (tmin' + 3 * tmax') div 4" using lt by linarith
    then show ?thesis using c_div_4_ge[of "tmin' + 3 * tmax'"] by linarith
  qed
  have t3: "tmin' \<le> t' \<and> t' < tmax'"
    unfolding t' clamp_probe_def Let_def using lt ge by auto
  have j2: "\<exists>c. ?cnt tmin' = Some c \<and> N \<le> c"
  proof (cases "cnt \<ge> N \<and> tmin \<le> t")
    case True
    then have "tmin' = t" using tmin' by simp
    then show ?thesis using i1 True by simp
  next
    case False
    then have "tmin' = tmin" using tmin' by (auto simp: max_def)
    then show ?thesis using i2 by simp
  qed
  have j3: "tmax' = c_div (2 * N) 5 \<or> (\<exists>c. ?cnt tmax' = Some c \<and> c < N)"
  proof (cases "\<not> cnt \<ge> N \<and> t \<le> tmax")
    case True
    then have "tmax' = t" using tmax' by simp
    then show ?thesis using i1 True by simp
  next
    case False
    then have "tmax' = tmax" using tmax' by (auto simp: min_def)
    then show ?thesis using i3 by simp
  qed
  show ?thesis unfolding bracket_inv_def using cnt' t3 j2 j3 lt by simp
qed

lemma tbound_bisect_done:
  assumes "tbound_bisect probe T N fast verify (t, cnt, tmin, tmax) = Some (Done (a, b))"
  shows "a = tmin \<and> b = tmax \<and> \<not> tmin < tmax - 1"
  using assms by (auto simp: tbound_bisect_def Let_def split: if_splits option.splits)

text \<open>
  C4.  A value \<open>tmin\<close> returned by \<^verbatim>\<open>tbound\<close> (not exhaustive) has \<open>count(N, tmin) \<ge> N\<close> and
  \<open>count(N, tmin + 1) < N\<close>, for the counter in exact mode with the same \<open>N\<close> and variant,
  whatever the floating point probe returns.
\<close>

theorem tbound_bracket:
  assumes "tbound probe T N a b fast verify = Some tmin"
  shows "(\<exists>c. tfac T N tmin fast verify = Some c \<and> N \<le> c)
       \<and> (\<exists>c. tfac T N (tmin + 1) fast verify = Some c \<and> c < N)"
proof -
  from assms obtain t0 cnt0 t cnt tmax where
    c0: "tfac T N t0 fast verify = Some cnt0"
    and l1: "while_opt (tbound_descend T N fast verify) (t0, cnt0) = Some (t, cnt)"
    and l2: "while_opt (tbound_bisect probe T N fast verify) (t, cnt, t, c_div (2 * N) 5)
               = Some (tmin, tmax)"
    and fin: "tmax < c_div (2 * N) 5"
    unfolding tbound_def by (auto simp: assert_o_def split: bind_splits if_splits)
  from tbound_descend_result[OF l1 c0]
  have init: "bracket_inv T N fast verify (t, cnt, t, c_div (2 * N) 5)"
    by (simp add: bracket_inv_def)
  have r2: "(\<lambda>(tmin, tmax). (\<exists>c. tfac T N tmin fast verify = Some c \<and> N \<le> c)
        \<and> (tmax = c_div (2 * N) 5 \<or> (\<exists>c. tfac T N tmax fast verify = Some c \<and> c < N))
        \<and> (tmin < tmax \<or> tmax = c_div (2 * N) 5) \<and> \<not> tmin < tmax - 1) (tmin, tmax)"
  proof (rule while_opt_rule[OF l2, where I = "bracket_inv T N fast verify"])
    show "bracket_inv T N fast verify (t, cnt, t, c_div (2 * N) 5)" by (rule init)
  next
    fix s s'
    assume "bracket_inv T N fast verify s" "tbound_bisect probe T N fast verify s = Some (Next s')"
    then show "bracket_inv T N fast verify s'"
      by (cases s, cases s') (auto intro: tbound_bisect_step)
  next
    fix s r
    assume i: "bracket_inv T N fast verify s" and d: "tbound_bisect probe T N fast verify s = Some (Done r)"
    obtain t cnt tmin tmax where s: "s = (t, cnt, tmin, tmax)" by (cases s)
    obtain x y where r: "r = (x, y)" by (cases r)
    from tbound_bisect_done[OF d[unfolded s r]] i[unfolded s]
    show "(\<lambda>(tmin, tmax). (\<exists>c. tfac T N tmin fast verify = Some c \<and> N \<le> c)
        \<and> (tmax = c_div (2 * N) 5 \<or> (\<exists>c. tfac T N tmax fast verify = Some c \<and> c < N))
        \<and> (tmin < tmax \<or> tmax = c_div (2 * N) 5) \<and> \<not> tmin < tmax - 1) r"
      unfolding r by (simp add: bracket_inv_def)
  qed
  from r2 fin have "tmax = tmin + 1" by auto
  with r2 fin show ?thesis by auto
qed

theorem tbound_bracket_witness:
  "\<exists>T. egs_setup 8 21 = Some T
     \<and> tbound (\<lambda>t cnt N. t) T 20 1 3 False False = Some 6
     \<and> tfac T 20 6 False False = Some 20 \<and> tfac T 20 7 False False = Some 18"
proof -
  have a: "tbound (\<lambda>t cnt N. t) tabs_8_21 20 1 3 False False = Some 6" by (rule tbound_20)
  have b: "tfac tabs_8_21 20 6 False False = Some 20" by code_simp
  from tbound_bracket[OF a] obtain c where
    "tfac tabs_8_21 20 (6 + 1) False False = Some c" "c < 20" by blast
  moreover have "tfac tabs_8_21 20 7 False False = Some 18" by code_simp
  ultimately show ?thesis using a b setup_8_21 by auto
qed

section \<open>Monotonicity on a range\<close>

lemma counts_std_30: "list_all (\<lambda>N. nonincreasing (counts tabs_8_21 False N)) [14..30]"
  by code_simp

lemma counts_fast_30: "list_all (\<lambda>N. nonincreasing (counts tabs_8_21 True N)) [14..30]"
  by code_simp

lemma nonincreasing_counts:
  assumes "nonincreasing (counts T fast N)"
    and "2 * t1 < N" "N < 4 * t1" "t1 < t2" "2 * t2 < N"
  shows "\<exists>c1 c2. tfac T N t1 fast False = Some c1 \<and> tfac T N t2 fast False = Some c2 \<and> c2 \<le> c1"
proof -
  let ?lo = "N div 4 + 1" and ?hi = "(N - 1) div 2"
  let ?f = "\<lambda>t. tfac T N t fast False"
  have r1: "?lo \<le> t1" "t1 \<le> ?hi" using assms(2,3) by linarith+
  have r2: "?lo \<le> t2" "t2 \<le> ?hi" using assms(3,4,5) by linarith+
  have in1: "t1 \<in> set [?lo..?hi]" and in2: "t2 \<in> set [?lo..?hi]"
    unfolding set_upto using r1 r2 by simp_all
  from assms(1) have some: "\<forall>t\<in>set [?lo..?hi]. ?f t \<noteq> None"
    and srt: "sorted_wrt (\<lambda>a b. the (?f b) \<le> the (?f a)) [?lo..?hi]"
    by (simp_all add: nonincreasing_def counts_def list_all_iff sorted_wrt_map)
  have "?f t1 \<noteq> None" "?f t2 \<noteq> None" using some in1 in2 by blast+
  then obtain c1 c2 where c: "?f t1 = Some c1" "?f t2 = Some c2" by auto
  define i where "i = nat (t1 - ?lo)"
  define j where "j = nat (t2 - ?lo)"
  have len: "length [?lo..?hi] = nat (?hi - ?lo + 1)" by simp
  have ij: "i < j" "j < length [?lo..?hi]" using r1 r2 assms(4) unfolding i_def j_def by auto
  have n1: "[?lo..?hi] ! i = t1" using r1 ij unfolding i_def by (simp add: nth_upto)
  have n2: "[?lo..?hi] ! j = t2" using r2 ij unfolding j_def by (simp add: nth_upto)
  from srt ij have "the (?f ([?lo..?hi] ! j)) \<le> the (?f ([?lo..?hi] ! i))"
    by (simp add: sorted_wrt_iff_nth_less)
  then have "c2 \<le> c1" using n1 n2 c by simp
  with c show ?thesis by blast
qed

text \<open>
  C6, as amended.  With the tables of \<open>egs_setup 8 21\<close>, for every \<open>N\<close> from 14 to 30, both
  variants, and all targets \<open>t1 < t2\<close> with \<open>2t < N < 4t\<close>, both counts exist and
  \<open>count(N, t1) \<ge> count(N, t2)\<close>.  (Beyond that range the count is not monotone, see
  \<open>tfac_not_monotone\<close>.)
\<close>

theorem tfac_monotone_upto_30:
  assumes "14 \<le> N" "N \<le> 30" "2 * t1 < N" "N < 4 * t1" "t1 < t2" "2 * t2 < N"
  shows "\<exists>c1 c2. tfac tabs_8_21 N t1 fast False = Some c1
           \<and> tfac tabs_8_21 N t2 fast False = Some c2 \<and> c2 \<le> c1"
proof -
  have "N \<in> set [14..30]" unfolding set_upto using assms(1,2) by simp
  then have "nonincreasing (counts tabs_8_21 fast N)"
    using counts_std_30 counts_fast_30 by (cases fast) (auto simp: list_all_iff)
  from nonincreasing_counts[OF this assms(3-6)] show ?thesis .
qed

theorem tfac_monotone_witness:
  "\<exists>c1 c2. tfac tabs_8_21 20 6 True False = Some c1
      \<and> tfac tabs_8_21 20 8 True False = Some c2 \<and> c2 \<le> c1"
  by (rule tfac_monotone_upto_30) simp_all

section \<open>The feasibility bound\<close>

text \<open>
  Feasibility mode shares the first phase with the exact mode and returns from it.
\<close>

lemma feasible_after_first_phase:
  assumes "tfac_run T N t fast verify = Some r"
  shows "\<exists>ph. tfac_phase1 T N t fast verify = Some ph \<and>
           tfac_feasible lg T N t fast verify = feasible_count lg T t ph"
  using assms unfolding tfac_run_def tfac_feasible_def by (auto split: bind_splits)

text \<open>
  The run for \<open>N = 14\<close> and \<open>t = 4\<close>.  The first phase counts the 11 factors for the primes
  3, 5, 7, 11 and 13 and leaves \<open>2^6\<close>, which is \<open>4^3\<close>: the exact mode returns 14.
\<close>

lemma phase1_14_4:
  "map_option (\<lambda>ph. (ph_maxpi ph, ph_E ph, ph_cnt ph)) (tfac_phase1 tabs_8_21 14 4 False False)
     = Some (1, [0, 6], 11) \<and>
   map_option (\<lambda>ph. (ph_maxpi ph, ph_E ph, ph_cnt ph)) (tfac_phase1 tabs_8_21 14 4 True False)
     = Some (1, [0, 6], 11)"
  by code_simp

lemma exact_14_4:
  "tfac tabs_8_21 14 4 False False = Some 14 \<and> tfac tabs_8_21 14 4 True False = Some 14"
  by code_simp

text \<open>
  The floating-point steps.  Converted to \<^verbatim>\<open>double\<close>, \<open>2 + epsilon\<close> is 2 and \<open>4 - epsilon\<close> is
  4; the product of 6 and the logarithm of 2 is rounded down, so that the quotient by the
  logarithm of 4 is below 3.
\<close>

lemma log_arg_2: "to_double (add_ld 2 epsilon) = 2"
  by code_simp

lemma log_arg_4: "to_double (sub_ld 4 epsilon) = 4"
  by code_simp

lemma quot_6: "\<lfloor>div_ld (add_ld 0 (mul_d (to_double 6) ln2_double)) (2 * ln2_double)\<rfloor> = 2"
  by code_simp

lemma ln2_nonzero: "ln2_double \<noteq> 0"
  by code_simp

lemma ret_13: "add_ld 11 2 = 13"
  by code_simp

lemma P_at_1: "P_at tabs_8_21 (Suc 0) = Some 2"
  by code_simp

lemma feasible_count_14_4:
  assumes lg: "lg 2 = ln2_double" "lg 4 = 2 * ln2_double"
    and ph: "ph_maxpi ph = 1" "ph_E ph = [0, 6]" "ph_cnt ph = 11"
  shows "feasible_count lg tabs_8_21 4 ph = Some 13"
proof -
  have e: "ebits_sum lg tabs_8_21 (Suc 0) [0, 6] = Some (add_ld 0 (mul_d (to_double 6) ln2_double))"
    by (simp add: ebits_sum_def P_at_1 nth_opt_def log_arg_2 lg(1))
  show ?thesis
    by (simp add: feasible_count_def ph e lg log_arg_4 quot_6 ret_13 ln2_nonzero assert_o_def c_trunc_def)
qed

text \<open>
  C8.  The value returned in feasibility mode is not always an upper bound of the value
  returned in exact mode.  For \<open>N = 14\<close> and \<open>t = 4\<close>, in both variants, on the tables of
  \<open>egs_setup 8 21\<close>, and for every \<^verbatim>\<open>log\<close> that returns the doubles nearest to \<open>ln 2\<close> and
  \<open>ln 4\<close> for the arguments 2 and 4: the first phase leaves \<open>cnt = 11\<close> and \<open>E = [0, 6]\<close>,
  feasibility mode returns 13, and the exact mode returns 14.
\<close>

theorem feasible_below_exact:
  assumes "lg 2 = 6243314768165359 / 2 ^ 53" and "lg 4 = 6243314768165359 / 2 ^ 52"
  shows "map_option (\<lambda>ph. (ph_E ph, ph_cnt ph)) (tfac_phase1 tabs_8_21 14 4 fast False)
           = Some ([0, 6], 11) \<and>
         tfac_feasible lg tabs_8_21 14 4 fast False = Some 13 \<and>
         tfac tabs_8_21 14 4 fast False = Some 14"
proof -
  have lg: "lg 2 = ln2_double" "lg 4 = 2 * ln2_double"
    using assms by (simp_all add: ln2_double_def)
  from phase1_14_4 obtain ph where
    ph: "tfac_phase1 tabs_8_21 14 4 fast False = Some ph"
    "ph_maxpi ph = 1" "ph_E ph = [0, 6]" "ph_cnt ph = 11"
    by (cases fast) auto
  with feasible_count_14_4[OF lg] have "tfac_feasible lg tabs_8_21 14 4 fast False = Some 13"
    by (simp add: tfac_feasible_def)
  then show ?thesis using exact_14_4 ph by (cases fast) simp_all
qed

theorem feasible_below_exact_witness:
  "tfac_feasible (\<lambda>x. if x = 2 then 6243314768165359 / 2 ^ 53 else 6243314768165359 / 2 ^ 52)
      tabs_8_21 14 4 False False = Some 13 \<and>
   tfac tabs_8_21 14 4 False False = Some 14"
  using feasible_below_exact[of "\<lambda>x. if x = 2 then 6243314768165359 / 2 ^ 53 else 6243314768165359 / 2 ^ 52" False]
  by simp

section \<open>The tables of \<^verbatim>\<open>setup\<close>\<close>

subsection \<open>Primes\<close>

lemma is_prime_iff: "is_prime p \<longleftrightarrow> 1 < p \<and> (\<forall>d. d dvd p \<longrightarrow> d = 1 \<or> d = p)"
proof
  assume a: "is_prime p"
  then have p1: "1 < p" and nd: "\<forall>d\<in>{2..<p}. \<not> d dvd p"
    by (auto simp: is_prime_def list_all_iff)
  show "1 < p \<and> (\<forall>d. d dvd p \<longrightarrow> d = 1 \<or> d = p)"
  proof (intro conjI allI impI)
    show "1 < p" by (rule p1)
  next
    fix d assume d: "d dvd p"
    then have "d \<le> p" using p1 by (auto dest: dvd_imp_le)
    moreover have "d \<noteq> 0" using d p1 by (cases "d = 0") auto
    ultimately show "d = 1 \<or> d = p" using nd d by (cases "d = 1"; cases "d = p") auto
  qed
next
  assume "1 < p \<and> (\<forall>d. d dvd p \<longrightarrow> d = 1 \<or> d = p)"
  then show "is_prime p" by (auto simp: is_prime_def list_all_iff)
qed

lemma is_prime_gt1: "is_prime p \<Longrightarrow> 1 < p"
  by (simp add: is_prime_iff)

lemma prime_factor_exists: "1 < n \<Longrightarrow> \<exists>p. is_prime p \<and> p dvd n"
proof (induction n rule: less_induct)
  case (less n)
  show ?case
  proof (cases "is_prime n")
    case True
    then show ?thesis by auto
  next
    case False
    then obtain d where d: "d dvd n" "d \<noteq> 1" "d \<noteq> n" using less.prems by (auto simp: is_prime_iff)
    then have "d \<noteq> 0" using less.prems by auto
    then have "1 < d" using d by simp
    moreover have "d < n" using d less.prems by (auto dest: dvd_imp_le simp: le_less)
    ultimately obtain p where "is_prime p" "p dvd d" using less.IH by blast
    then show ?thesis using d(1) by (auto intro: dvd_trans)
  qed
qed

lemma is_prime_dvd_mult:
  assumes "is_prime p" and "p dvd a * b"
  shows "p dvd a \<or> p dvd b"
proof (cases "p dvd a")
  case True
  then show ?thesis by simp
next
  case False
  have "gcd p a dvd p" by simp
  then have "gcd p a = 1 \<or> gcd p a = p" using assms(1) by (simp add: is_prime_iff)
  moreover have "gcd p a \<noteq> p" using False by (metis gcd_dvd2)
  ultimately have "coprime p a" by (simp add: coprime_iff_gcd_eq_1)
  then show ?thesis using assms(2) by (simp add: coprime_dvd_mult_right_iff)
qed

lemma is_prime_dvd_power: "is_prime p \<Longrightarrow> p dvd a ^ k \<Longrightarrow> p dvd a"
proof (induction k)
  case 0
  then show ?case using is_prime_gt1[of p] by simp
next
  case (Suc k)
  then show ?case using is_prime_dvd_mult[of p a "a ^ k"] by auto
qed

lemma is_prime_dvd_prime: "is_prime p \<Longrightarrow> is_prime q \<Longrightarrow> p dvd q \<Longrightarrow> p = q"
  by (auto simp: is_prime_iff)

lemma primes_upto_set: "set (primes_upto n) = {p. is_prime p \<and> p \<le> n}"
  by (auto simp: primes_upto_def simp del: upt_Suc)


subsection \<open>Sieve\<close>

lemma fold_upd_length: "length (fold (\<lambda>k M. M[f k := i]) ks M) = length M"
  by (induction ks arbitrary: M) auto

lemma fold_upd_nth:
  "q < length M \<Longrightarrow>
   fold (\<lambda>k M. M[f k := i]) ks M ! q = (if q \<in> f ` set ks then i else M ! q)"
proof (induction ks arbitrary: M)
  case Nil
  then show ?case by simp
next
  case (Cons k ks)
  then show ?case by (auto simp: nth_list_update)
qed

lemma mark_multiples_length: "length (mark_multiples maxm i p M) = length M"
  by (simp add: mark_multiples_def fold_upd_length)

lemma mark_multiples_nth:
  assumes "0 < p" "length M = Suc maxm" "q \<le> maxm"
  shows "mark_multiples maxm i p M ! q = (if 0 < q \<and> p dvd q then i else M ! q)"
proof -
  have "q \<in> (\<lambda>k. k * p) ` set [1..<Suc (maxm div p)] \<longleftrightarrow> 0 < q \<and> p dvd q"
  proof
    assume "q \<in> (\<lambda>k. k * p) ` set [1..<Suc (maxm div p)]"
    then show "0 < q \<and> p dvd q" using assms(1) by auto
  next
    assume a: "0 < q \<and> p dvd q"
    then obtain k where k: "q = k * p" by (auto simp: dvd_def mult.commute)
    then have "0 < k" using a by (cases k) auto
    moreover have "k \<le> maxm div p" using k assms(1,3)
      by (metis div_le_mono nonzero_mult_div_cancel_right less_numeral_extra(3))
    ultimately show "q \<in> (\<lambda>k. k * p) ` set [1..<Suc (maxm div p)]" using k by auto
  qed
  then show ?thesis using assms(2,3) unfolding mark_multiples_def
    by (subst fold_upd_nth) auto
qed

lemma sieve_fold:
  assumes "\<forall>i. 1 \<le> i \<and> i < length P \<longrightarrow> 0 < P ! i" "n \<le> length P" "1 \<le> n"
    and "R = fold (\<lambda>i M. mark_multiples maxm i (P ! i) M) [1..<n] (replicate (Suc maxm) 0)"
  shows "length R = Suc maxm \<and>
         (\<forall>q. q \<le> maxm \<longrightarrow>
            (R ! q \<noteq> 0 \<longrightarrow> R ! q < n \<and> 0 < q \<and> P ! (R ! q) dvd q) \<and>
            (\<forall>i. 1 \<le> i \<and> i < n \<and> 0 < q \<and> P ! i dvd q \<longrightarrow> i \<le> R ! q))"
  using assms(2,3,4)
proof (induction n arbitrary: R)
  case 0
  then show ?case by simp
next
  case (Suc n)
  show ?case
  proof (cases "n = 0")
    case True
    then have "R = replicate (Suc maxm) 0" using Suc.prems(3) by simp
    then show ?thesis using True by (simp del: replicate_Suc)
  next
    case False
    define R0 where "R0 = fold (\<lambda>i M. mark_multiples maxm i (P ! i) M) [1..<n] (replicate (Suc maxm) 0)"
    have IH: "length R0 = Suc maxm \<and>
         (\<forall>q. q \<le> maxm \<longrightarrow>
            (R0 ! q \<noteq> 0 \<longrightarrow> R0 ! q < n \<and> 0 < q \<and> P ! (R0 ! q) dvd q) \<and>
            (\<forall>i. 1 \<le> i \<and> i < n \<and> 0 < q \<and> P ! i dvd q \<longrightarrow> i \<le> R0 ! q))"
      using Suc.IH[OF _ _ R0_def] Suc.prems False by simp
    have pn: "0 < P ! n" using assms(1) Suc.prems False by simp
    have eq: "R = mark_multiples maxm n (P ! n) R0"
      using False Suc.prems(3) by (simp add: R0_def del: replicate_Suc)
    have nth: "R ! q = (if 0 < q \<and> P ! n dvd q then n else R0 ! q)" if "q \<le> maxm" for q
      unfolding eq using pn IH that by (intro mark_multiples_nth) auto
    show ?thesis
    proof (intro conjI allI impI)
      show "length R = Suc maxm"
        using IH by (simp add: eq mark_multiples_length)
    next
      fix q assume q: "q \<le> maxm" and nz: "R ! q \<noteq> 0"
      show "R ! q < Suc n"
        using IH q nz by (auto simp: nth[OF q] less_Suc_eq split: if_splits)
      show "0 < q"
        using IH q nz by (auto simp: nth[OF q] split: if_splits)
      show "P ! (R ! q) dvd q"
        using IH q nz by (auto simp: nth[OF q] split: if_splits)
    next
      fix q i assume q: "q \<le> maxm" and i: "1 \<le> i \<and> i < Suc n \<and> 0 < q \<and> P ! i dvd q"
      show "i \<le> R ! q"
      proof (cases "P ! n dvd q")
        case True
        then show ?thesis using i by (simp add: nth[OF q])
      next
        case False
        then have "i < n" using i by (cases "i = n") auto
        then show ?thesis using IH q i False by (simp add: nth[OF q])
      qed
    qed
  qed
qed

lemma P_nth_prime:
  assumes "1 \<le> i" "i < length (1 # primes_upto B)"
  shows "is_prime ((1 # primes_upto B) ! i) \<and> (1 # primes_upto B) ! i \<le> B"
proof -
  have "(1 # primes_upto B) ! i = primes_upto B ! (i - 1)" using assms by (cases i) auto
  moreover have "primes_upto B ! (i - 1) \<in> set (primes_upto B)" using assms by (cases i) auto
  ultimately show ?thesis by (simp add: primes_upto_set)
qed

lemma prime_is_P_nth:
  assumes "is_prime p" "p \<le> B"
  shows "\<exists>i. 1 \<le> i \<and> i < length (1 # primes_upto B) \<and> (1 # primes_upto B) ! i = p"
proof -
  have "p \<in> set (primes_upto B)" using assms by (simp add: primes_upto_set)
  then obtain j where "j < length (primes_upto B)" "primes_upto B ! j = p"
    by (auto simp: in_set_conv_nth)
  then show ?thesis by (intro exI[of _ "Suc j"]) simp
qed

lemma sieve_M_length: "length (sieve_M maxm (1 # primes_upto B)) = Suc maxm"
proof -
  have "\<forall>i. 1 \<le> i \<and> i < length (1 # primes_upto B) \<longrightarrow> 0 < (1 # primes_upto B) ! i"
    using P_nth_prime is_prime_gt1 by (metis less_trans zero_less_one)
  from sieve_fold[OF this _ _ sieve_M_def, of maxm]
  show ?thesis by simp
qed

lemma sieve_M_ok: "sieve_ok (1 # primes_upto B) B maxm (sieve_M maxm (1 # primes_upto B))"
proof -
  let ?P = "1 # primes_upto B"
  have pos: "\<forall>i. 1 \<le> i \<and> i < length ?P \<longrightarrow> 0 < ?P ! i"
    using P_nth_prime is_prime_gt1 by (metis less_trans zero_less_one)
  have S: "\<forall>q. q \<le> maxm \<longrightarrow>
            (sieve_M maxm ?P ! q \<noteq> 0 \<longrightarrow> sieve_M maxm ?P ! q < length ?P \<and> 0 < q \<and> ?P ! (sieve_M maxm ?P ! q) dvd q) \<and>
            (\<forall>i. 1 \<le> i \<and> i < length ?P \<and> 0 < q \<and> ?P ! i dvd q \<longrightarrow> i \<le> sieve_M maxm ?P ! q)"
  proof -
    have le: "length ?P \<le> length ?P" "1 \<le> length ?P" by simp_all
    show ?thesis by (rule sieve_fold[OF pos le sieve_M_def, of maxm, THEN conjunct2])
  qed
  show ?thesis unfolding sieve_ok_def
  proof (intro allI impI conjI)
    fix q assume q: "1 \<le> q \<and> q \<le> maxm" and nz: "sieve_M maxm ?P ! q \<noteq> 0"
    then have a: "sieve_M maxm ?P ! q < length ?P" "?P ! (sieve_M maxm ?P ! q) dvd q"
      using S by blast+
    have "1 \<le> sieve_M maxm ?P ! q" using nz by simp
    from P_nth_prime[OF this a(1)]
    show "is_prime (?P ! (sieve_M maxm ?P ! q))" "?P ! (sieve_M maxm ?P ! q) \<le> B" by blast+
    show "?P ! (sieve_M maxm ?P ! q) dvd q" by (rule a(2))
  next
    fix q p assume q: "1 \<le> q \<and> q \<le> maxm" and z: "sieve_M maxm ?P ! q = 0"
      and p: "is_prime p \<and> p \<le> B"
    show "\<not> p dvd q"
    proof
      assume d: "p dvd q"
      obtain i where i: "1 \<le> i" "i < length ?P" "?P ! i = p" using prime_is_P_nth p by blast
      then have "i \<le> sieve_M maxm ?P ! q" using S q d by (metis less_eq_Suc_le One_nat_def)
      then show False using z i(1) by simp
    qed
  qed
qed

declare divide_out.simps [simp del] down_by2.simps [simp del] v2.simps [simp del]

subsection \<open>Smooth numbers\<close>

lemma smooth_1: "smooth B 1"
  using is_prime_gt1 by (fastforce simp: smooth_def)

lemma smooth_dvd: "smooth B m \<Longrightarrow> d dvd m \<Longrightarrow> smooth B d"
  unfolding smooth_def by (meson dvd_trans)

lemma smooth_mult: "smooth B a \<Longrightarrow> smooth B b \<Longrightarrow> smooth B (a * b)"
  unfolding smooth_def using is_prime_dvd_mult by blast

lemma smooth_prime: "is_prime p \<Longrightarrow> p \<le> B \<Longrightarrow> smooth B p"
  unfolding smooth_def using is_prime_dvd_prime by blast

lemma smooth_power: "smooth B a \<Longrightarrow> smooth B (a ^ k)"
  by (induction k) (simp_all add: smooth_1[simplified] smooth_mult)

lemma not_smooth:
  assumes "1 < q" "\<forall>p. is_prime p \<and> p \<le> B \<longrightarrow> \<not> p dvd q"
  shows "\<not> smooth B q"
proof -
  obtain p where "is_prime p" "p dvd q" using prime_factor_exists[OF assms(1)] by blast
  then show ?thesis using assms(2) unfolding smooth_def by blast
qed

subsection \<open>Values of factorizations\<close>

lemma fact_value_Nil: "fact_value P [] = 1"
  by (simp add: fact_value_def)

lemma fact_value_Cons: "fact_value P (x # f) = P ! pp_pi x ^ pp_e x * fact_value P f"
  by (simp add: fact_value_def)

lemma fact_value_append: "fact_value P (f @ g) = fact_value P f * fact_value P g"
  by (simp add: fact_value_def)

lemma fact_value_rev: "fact_value P (rev f) = fact_value P f"
  by (induction f) (simp_all add: fact_value_Nil fact_value_Cons fact_value_append)

lemma fact_value_bump: "fact_value P (bump i g) = P ! i * fact_value P g"
  by (auto simp: bump_def fact_value_Nil fact_value_Cons split: list.splits)

lemma bump_nonzero: "i \<noteq> 0 \<Longrightarrow> \<forall>x\<in>set g. pp_pi x \<noteq> 0 \<Longrightarrow> \<forall>x\<in>set (bump i g). pp_pi x \<noteq> 0"
  by (auto simp: bump_def split: list.splits if_splits)

subsection \<open>Dividing out\<close>

lemma divide_out_spec:
  assumes A: "\<forall>q'. 1 \<le> q' \<and> q' \<le> q0 \<longrightarrow> M ! q' \<noteq> 0 \<longrightarrow>
                 is_prime (P ! (M ! q')) \<and> P ! (M ! q') \<le> B \<and> P ! (M ! q') dvd q'"
    and "1 \<le> q" "q \<le> q0"
  shows "\<exists>q' g'. divide_out M P q g = Some (q', g') \<and> 1 \<le> q' \<and> q' \<le> q \<and> M ! q' = 0 \<and>
            q * fact_value P g = q' * fact_value P g' \<and>
            (smooth B q \<longleftrightarrow> smooth B q') \<and>
            ((\<forall>x\<in>set g. pp_pi x \<noteq> 0) \<longrightarrow> (\<forall>x\<in>set g'. pp_pi x \<noteq> 0))"
  using assms
proof (induction M P q g rule: divide_out.induct)
  case (1 M P q g)
  note A = "1.prems"(1)
  show ?case
  proof (cases "M ! q = 0")
    case True
    then show ?thesis using "1.prems"(2,3) by (subst divide_out.simps) simp
  next
    case False
    define p where "p = P ! (M ! q)"
    have p: "is_prime p" "p \<le> B" "p dvd q"
      using A "1.prems"(2,3) False unfolding p_def by blast+
    have p1: "1 < p" using p(1) by (rule is_prime_gt1)
    have q0: "q \<noteq> 0" using "1.prems"(2) by simp
    have qd: "q = p * (q div p)" using p(3) by simp
    have d1: "1 \<le> q div p" using qd q0 by (cases "q div p = 0") auto
    have d2: "q div p \<le> q0" using "1.prems"(3) by (meson div_le_dividend le_trans)
    have nn: "\<not> (q = 0 \<or> P ! (M ! q) \<le> 1)" using q0 p1 by (simp add: p_def)
    from "1.IH"[OF False nn A d1[unfolded p_def] d2[unfolded p_def], folded p_def]
    obtain q' g' where r: "divide_out M P (q div p) (bump (M ! q) g) = Some (q', g')"
      "1 \<le> q'" "q' \<le> q div p" "M ! q' = 0"
      "q div p * fact_value P (bump (M ! q) g) = q' * fact_value P g'"
      "smooth B (q div p) \<longleftrightarrow> smooth B q'"
      "(\<forall>x\<in>set (bump (M ! q) g). pp_pi x \<noteq> 0) \<longrightarrow> (\<forall>x\<in>set g'. pp_pi x \<noteq> 0)"
      by blast
    have e: "divide_out M P q g = Some (q', g')"
      using False nn r(1) by (subst divide_out.simps) (simp add: p_def)
    have v: "q * fact_value P g = q' * fact_value P g'"
    proof -
      have "q * fact_value P g = q div p * (p * fact_value P g)" using qd
        by (metis mult.assoc mult.commute)
      also have "\<dots> = q div p * fact_value P (bump (M ! q) g)"
        by (simp only: fact_value_bump p_def)
      finally show ?thesis using r(5) by simp
    qed
    have s: "smooth B q \<longleftrightarrow> smooth B (q div p)"
    proof
      assume "smooth B q"
      then show "smooth B (q div p)" using qd by (metis smooth_dvd dvd_triv_right)
    next
      assume "smooth B (q div p)"
      then have "smooth B (p * (q div p))" using smooth_prime[OF p(1,2)] by (intro smooth_mult)
      then show "smooth B q" using qd by simp
    qed
    have n: "(\<forall>x\<in>set g. pp_pi x \<noteq> 0) \<longrightarrow> (\<forall>x\<in>set g'. pp_pi x \<noteq> 0)"
      using r(7) bump_nonzero[OF False] by blast
    have "q' \<le> q" using r(3) by (meson div_le_dividend le_trans)
    then show ?thesis using e r(2,4) v s r(6) n by blast
  qed
qed

subsection \<open>Entries of the arena\<close>

lemma fact_at_append: "stored F off \<Longrightarrow> fact_at (F @ G) off = fact_at F off"
  by (auto simp: stored_def fact_at_def takeWhile_append1)

lemma stored_append: "stored F off \<Longrightarrow> stored (F @ G) off"
  by (auto simp: stored_def)

lemma entry_ok_append: "entry_ok P B F M m \<Longrightarrow> entry_ok P B (F @ G) M m"
  by (auto simp: entry_ok_def fact_at_append stored_append)

lemma entry_ok_upd: "m' \<noteq> m \<Longrightarrow> entry_ok P B F (M[m' := v]) m = entry_ok P B F M m"
  by (simp add: entry_ok_def)

lemma fact_at_new:
  "\<forall>x\<in>set f. pp_pi x \<noteq> 0 \<Longrightarrow> fact_at (F @ f @ PP 0 e # G) (length F) = f"
  by (simp add: fact_at_def takeWhile_tail)

lemma stored_new: "stored (F @ f @ PP 0 e # G) (length F)"
  by (auto simp: stored_def)

lemma entry_ok_zero:
  "m < length M \<Longrightarrow> \<not> smooth B m \<Longrightarrow> entry_ok P B F (M[m := 0]) m"
  by (simp add: entry_ok_def)

lemma entry_ok_new:
  assumes "m < length M" "smooth B m" "1 \<le> length F" "\<forall>x\<in>set f. pp_pi x \<noteq> 0"
    "fact_value P f = m"
  shows "entry_ok P B (F @ f @ PP 0 e # G) (M[m := length F]) m"
proof -
  have "length F \<noteq> 0" using assms(3) by (cases F) simp_all
  then show ?thesis using assms(1,2,4,5)
    by (simp add: entry_ok_def fact_at_new stored_new del: length_0_conv)
qed

subsection \<open>The loop over the odd numbers\<close>

lemma odd_step_ok:
  assumes S: "sieve_ok P B maxm M0"
    and st: "odd_step P m (F, M) = Some (F', M')"
    and m: "1 < m" "m \<le> maxm"
    and len: "length M = Suc maxm"
    and same: "\<forall>q. 1 \<le> q \<and> q \<le> m \<longrightarrow> M ! q = M0 ! q"
    and F: "1 \<le> length F"
  shows "entry_ok P B F' M' m \<and> (\<exists>G. F' = F @ G) \<and> (\<exists>v. M' = M[m := v])"
proof -
  have ml: "m < length M" using m len by simp
  have A: "\<forall>q'. 1 \<le> q' \<and> q' \<le> m \<longrightarrow> M ! q' \<noteq> 0 \<longrightarrow>
             is_prime (P ! (M ! q')) \<and> P ! (M ! q') \<le> B \<and> P ! (M ! q') dvd q'"
    using S same m(2) unfolding sieve_ok_def by (metis le_trans)
  have Z: "\<not> smooth B q" if "1 < q" "q \<le> m" "M ! q = 0" for q
  proof -
    have "M0 ! q = 0" using same that by simp
    then have "\<forall>p. is_prime p \<and> p \<le> B \<longrightarrow> \<not> p dvd q"
      using S that m(2) unfolding sieve_ok_def by (metis le_trans less_imp_le_nat One_nat_def)
    then show ?thesis using that(1) by (rule not_smooth[rotated])
  qed
  show ?thesis
  proof (cases "M ! m = 0")
    case True
    have "divide_out M P m [PP (M ! m) 0] = Some (m, [PP (M ! m) 0])"
      using True by (subst divide_out.simps) simp
    then have "F' = F" "M' = M[m := 0]" using st m(1) by (auto simp: odd_step_def)
    moreover have "\<not> smooth B m" using Z[of m] m(1) True by simp
    ultimately show ?thesis using entry_ok_zero[OF ml] by auto
  next
    case False
    define p where "p = P ! (M ! m)"
    have p: "is_prime p" "p \<le> B" "p dvd m"
      using A m(1) False unfolding p_def by auto
    have p1: "1 < p" using p(1) by (rule is_prime_gt1)
    have md: "m = p * (m div p)" using p(3) by simp
    have d1: "1 \<le> m div p" using md m(1) by (cases "m div p = 0") auto
    have d2: "m div p \<le> m" by simp
    obtain q g where r: "divide_out M P (m div p) [PP (M ! m) 1] = Some (q, g)"
      "1 \<le> q" "q \<le> m div p" "M ! q = 0"
      "m div p * fact_value P [PP (M ! m) 1] = q * fact_value P g"
      "smooth B (m div p) \<longleftrightarrow> smooth B q"
      "(\<forall>x\<in>set [PP (M ! m) 1]. pp_pi x \<noteq> 0) \<longrightarrow> (\<forall>x\<in>set g. pp_pi x \<noteq> 0)"
      using divide_out_spec[OF A d1 d2, of "[PP (M ! m) 1]"] by blast
    have e: "divide_out M P m [PP (M ! m) 0] = Some (q, g)"
      using False p1 m(1) r(1) by (subst divide_out.simps) (simp add: p_def bump_def)
    have v: "m = q * fact_value P g"
      using r(5) md by (simp add: fact_value_Cons fact_value_Nil p_def mult.commute)
    have s: "smooth B m \<longleftrightarrow> smooth B q"
    proof -
      have "smooth B m \<longleftrightarrow> smooth B (m div p)"
      proof
        assume "smooth B m"
        then show "smooth B (m div p)" using md by (metis smooth_dvd dvd_triv_right)
      next
        assume "smooth B (m div p)"
        then have "smooth B (p * (m div p))" using smooth_prime[OF p(1,2)] by (intro smooth_mult)
        then show "smooth B m" using md by simp
      qed
      then show ?thesis using r(6) by simp
    qed
    have nz: "\<forall>x\<in>set g. pp_pi x \<noteq> 0" using r(7) False by simp
    have qm: "q \<le> m" using r(3) d2 by (rule le_trans)
    show ?thesis
    proof (cases "q = 1")
      case True
      then have FM: "F' = F @ rev g @ [PP 0 0]" "M' = M[m := length F]"
        using st e by (auto simp: odd_step_def)
      have "smooth B m" using s True smooth_1 by simp
      moreover have "\<forall>x\<in>set (rev g). pp_pi x \<noteq> 0" using nz by simp
      moreover have "fact_value P (rev g) = m" using v True by (simp add: fact_value_rev)
      ultimately have "entry_ok P B (F @ rev g @ PP 0 0 # []) (M[m := length F]) m"
        using ml F by (intro entry_ok_new)
      then show ?thesis using FM by auto
    next
      case False
      then have FM: "F' = F" "M' = M[m := 0]" using st e by (auto simp: odd_step_def)
      have "1 < q" using False r(2) by simp
      then have "\<not> smooth B m" using Z[OF _ qm r(4)] s by simp
      then show ?thesis using FM entry_ok_zero[OF ml] by auto
    qed
  qed
qed

lemma odd_loop_ok:
  assumes S: "sieve_ok P B maxm M0"
  shows "fold_opt (odd_step P) (down_by2 m) (F, M) = Some (F', M') \<Longrightarrow> odd m \<Longrightarrow> m \<le> maxm \<Longrightarrow>
         length M = Suc maxm \<Longrightarrow> (\<forall>q. 1 \<le> q \<and> q \<le> m \<longrightarrow> M ! q = M0 ! q) \<Longrightarrow>
         1 \<le> length F \<Longrightarrow> (\<forall>q. odd q \<and> m < q \<and> q \<le> maxm \<longrightarrow> entry_ok P B F M q) \<Longrightarrow>
         length M' = Suc maxm \<and> 1 \<le> length F' \<and>
         (\<forall>q. odd q \<and> 1 < q \<and> q \<le> maxm \<longrightarrow> entry_ok P B F' M' q)"
proof (induction m arbitrary: F M rule: down_by2.induct)
  case (1 m)
  show ?case
  proof (cases "1 < m")
    case False
    then have "down_by2 m = []" by (subst down_by2.simps) simp
    then have "F' = F" "M' = M" using "1.prems"(1) by simp_all
    then show ?thesis using "1.prems" False by auto
  next
    case True
    have dm: "down_by2 m = m # down_by2 (m - 2)" using True by (subst down_by2.simps) simp
    obtain F1 M1 where st: "odd_step P m (F, M) = Some (F1, M1)"
      and rest: "fold_opt (odd_step P) (down_by2 (m - 2)) (F1, M1) = Some (F', M')"
      using "1.prems"(1) unfolding dm by (auto split: option.splits)
    from odd_step_ok[OF S st True "1.prems"(3,4,5,6)]
    obtain G v where r: "entry_ok P B F1 M1 m" "F1 = F @ G" "M1 = M[m := v]" by blast
    have a1: "odd (m - 2)" using "1.prems"(2) True by simp
    have a2: "m - 2 \<le> maxm" using "1.prems"(3) by simp
    have a3: "length M1 = Suc maxm" using r(3) "1.prems"(4) by simp
    have a4: "\<forall>q. 1 \<le> q \<and> q \<le> m - 2 \<longrightarrow> M1 ! q = M0 ! q"
      using r(3) "1.prems"(5) True by auto
    have a5: "1 \<le> length F1" using r(2) "1.prems"(6) by simp
    have a6: "\<forall>q. odd q \<and> m - 2 < q \<and> q \<le> maxm \<longrightarrow> entry_ok P B F1 M1 q"
    proof (intro allI impI)
      fix q assume q: "odd q \<and> m - 2 < q \<and> q \<le> maxm"
      show "entry_ok P B F1 M1 q"
      proof (cases "q = m")
        case True
        then show ?thesis using r(1) by simp
      next
        case False
        have "q \<noteq> m - 1" using q "1.prems"(2) True by auto
        then have "m < q" using q False by linarith
        then have "entry_ok P B F M q" using "1.prems"(7) q by simp
        then show ?thesis using False unfolding r(2,3)
          by (simp add: entry_ok_append entry_ok_upd)
      qed
    qed
    show ?thesis by (rule "1.IH"[OF True rest a1 a2 a3 a4 a5 a6])
  qed
qed

subsection \<open>The loop over the even numbers\<close>

lemma v2_odd_part: "0 < m \<Longrightarrow> m = 2 ^ v2 m * (m div 2 ^ v2 m) \<and> odd (m div 2 ^ v2 m)"
proof (induction m rule: v2.induct)
  case (1 m)
  show ?case
  proof (cases "odd m")
    case True
    then have "v2 m = 0" by (subst v2.simps) simp
    then show ?thesis using True by simp
  next
    case False
    then have v: "v2 m = Suc (v2 (m div 2))" using "1.prems" by (subst v2.simps) simp
    have "0 < m div 2" using False "1.prems" by (cases "m div 2 = 0") auto
    with "1.IH" False "1.prems"
    have IH: "m div 2 = 2 ^ v2 (m div 2) * (m div 2 div 2 ^ v2 (m div 2))"
      "odd (m div 2 div 2 ^ v2 (m div 2))" by auto
    have d: "m div 2 ^ v2 m = m div 2 div 2 ^ v2 (m div 2)"
      by (simp add: v div_mult2_eq)
    have "m = 2 * (m div 2)" using False by simp
    also have "\<dots> = 2 * (2 ^ v2 (m div 2) * (m div 2 div 2 ^ v2 (m div 2)))"
      using IH(1) by simp
    also have "\<dots> = 2 ^ v2 m * (m div 2 ^ v2 m)"
      unfolding d unfolding v by simp
    finally have "m = 2 ^ v2 m * (m div 2 ^ v2 m)" .
    then show ?thesis using IH(2) d by simp
  qed
qed

lemma v2_even: "0 < m \<Longrightarrow> even m \<Longrightarrow> 1 \<le> v2 m"
  by (subst v2.simps) simp

lemma even_step_ok:
  assumes st: "even_step m (F, M) = Some (F', M')"
    and m: "even m" "1 < m" "m \<le> maxm"
    and len: "length M = Suc maxm"
    and odds: "\<forall>q. odd q \<and> q \<le> maxm \<longrightarrow> entry_ok P B F M q"
    and F: "1 \<le> length F"
    and two: "P ! 1 = 2" "2 \<le> B" "is_prime 2"
  shows "entry_ok P B F' M' m \<and> (\<exists>G. F' = F @ G) \<and> (\<exists>v. M' = M[m := v])"
proof -
  define e where "e = v2 m"
  define q where "q = m div 2 ^ e"
  have ml: "m < length M" using m len by simp
  have mq: "m = 2 ^ e * q" "odd q" using v2_odd_part[of m] m(2) by (simp_all add: e_def q_def)
  have "q dvd m" using mq(1) by simp
  then have qm: "q \<le> maxm" using m by (meson dvd_imp_le le_trans less_imp_le_nat zero_less_one less_trans)
  have ok: "entry_ok P B F M q" using odds mq(2) qm by simp
  show ?thesis
  proof (cases "M ! q = 0")
    case True
    then have FM: "F' = F" "M' = M[m := 0]" using st by (auto simp: even_step_def Let_def e_def q_def)
    have "\<not> smooth B q" using ok True by (simp add: entry_ok_def)
    then have "\<not> smooth B m" using \<open>q dvd m\<close> smooth_dvd by blast
    then show ?thesis using FM entry_ok_zero[OF ml] by auto
  next
    case False
    then have FM: "F' = F @ (fact_at F (M ! q) @ [PP 1 e]) @ PP 0 0 # []" "M' = M[m := length F]"
      using st by (auto simp: even_step_def Let_def e_def q_def)
    have sq: "smooth B q" "fact_value P (fact_at F (M ! q)) = q"
      using ok False by (simp_all add: entry_ok_def)
    have "smooth B (2 ^ e)" using smooth_prime[OF two(3,2)] by (rule smooth_power)
    then have "smooth B m" using sq(1) unfolding mq(1) by (rule smooth_mult)
    moreover have "\<forall>x\<in>set (fact_at F (M ! q) @ [PP 1 e]). pp_pi x \<noteq> 0"
      by (auto simp: fact_at_def dest: set_takeWhileD)
    moreover have "fact_value P (fact_at F (M ! q) @ [PP 1 e]) = m"
      using sq(2) two(1) mq(1) by (simp add: fact_value_append fact_value_Cons fact_value_Nil)
    ultimately have "entry_ok P B (F @ (fact_at F (M ! q) @ [PP 1 e]) @ PP 0 0 # []) (M[m := length F]) m"
      using ml F by (intro entry_ok_new)
    then show ?thesis using FM by blast
  qed
qed

lemma even_loop_ok:
  assumes two: "P ! 1 = 2" "2 \<le> B" "is_prime 2"
  shows "fold_opt even_step (down_by2 m) (F, M) = Some (F', M') \<Longrightarrow> even m \<Longrightarrow> m \<le> maxm \<Longrightarrow>
         length M = Suc maxm \<Longrightarrow> (\<forall>q. odd q \<and> q \<le> maxm \<longrightarrow> entry_ok P B F M q) \<Longrightarrow>
         1 \<le> length F \<Longrightarrow> (\<forall>q. even q \<and> m < q \<and> q \<le> maxm \<longrightarrow> entry_ok P B F M q) \<Longrightarrow>
         (\<forall>q. 1 \<le> q \<and> q \<le> maxm \<longrightarrow> entry_ok P B F' M' q)"
proof (induction m arbitrary: F M rule: down_by2.induct)
  case (1 m)
  show ?case
  proof (cases "1 < m")
    case False
    then have m0: "m = 0" using "1.prems"(2) by (cases m) auto
    have "down_by2 m = []" using False by (subst down_by2.simps) simp
    then have "F' = F" "M' = M" using "1.prems"(1) by simp_all
    then show ?thesis using "1.prems"(5,7) m0 by (metis One_nat_def less_eq_Suc_le)
  next
    case True
    have dm: "down_by2 m = m # down_by2 (m - 2)" using True by (subst down_by2.simps) simp
    obtain F1 M1 where st: "even_step m (F, M) = Some (F1, M1)"
      and rest: "fold_opt even_step (down_by2 (m - 2)) (F1, M1) = Some (F', M')"
      using "1.prems"(1) unfolding dm by (auto split: option.splits)
    from even_step_ok[OF st "1.prems"(2) True "1.prems"(3,4,5,6) two]
    obtain G v where r: "entry_ok P B F1 M1 m" "F1 = F @ G" "M1 = M[m := v]" by blast
    have a1: "even (m - 2)" using "1.prems"(2) True by simp
    have a2: "m - 2 \<le> maxm" using "1.prems"(3) by simp
    have a3: "length M1 = Suc maxm" using r(3) "1.prems"(4) by simp
    have a4: "\<forall>q. odd q \<and> q \<le> maxm \<longrightarrow> entry_ok P B F1 M1 q"
    proof (intro allI impI)
      fix q assume q: "odd q \<and> q \<le> maxm"
      then have "q \<noteq> m" using "1.prems"(2) by auto
      then show "entry_ok P B F1 M1 q" using "1.prems"(5) q unfolding r(2,3)
        by (simp add: entry_ok_append entry_ok_upd)
    qed
    have a5: "1 \<le> length F1" using r(2) "1.prems"(6) by simp
    have a6: "\<forall>q. even q \<and> m - 2 < q \<and> q \<le> maxm \<longrightarrow> entry_ok P B F1 M1 q"
    proof (intro allI impI)
      fix q assume q: "even q \<and> m - 2 < q \<and> q \<le> maxm"
      show "entry_ok P B F1 M1 q"
      proof (cases "q = m")
        case True
        then show ?thesis using r(1) by simp
      next
        case False
        have "q \<noteq> m - 1" using q "1.prems"(2) True by auto
        then have "m < q" using q False by linarith
        then have "entry_ok P B F M q" using "1.prems"(7) q by simp
        then show ?thesis using False unfolding r(2,3)
          by (simp add: entry_ok_append entry_ok_upd)
      qed
    qed
    show ?thesis by (rule "1.IH"[OF True rest a1 a2 a3 a4 a5 a6])
  qed
qed

subsection \<open>The tables\<close>

lemma is_prime_2: "is_prime 2"
  by (simp add: is_prime_def)

lemma primes_upto_hd:
  assumes "2 \<le> B"
  shows "(1 # primes_upto B) ! 1 = 2"
proof -
  have "[0..<Suc B] = 0 # 1 # 2 # [3..<Suc B]"
    using assms by (simp add: upt_conv_Cons numeral_3_eq_3 numeral_2_eq_2)
  moreover have "\<not> is_prime 0" "\<not> is_prime 1" by (simp_all add: is_prime_def)
  ultimately show ?thesis using is_prime_2 by (simp add: primes_upto_def del: upt_Suc)
qed

lemma egs_setup_D:
  assumes "egs_setup maxp maxm0 = Some T"
  shows "\<exists>maxm F1 M1. 2 \<le> maxp \<and> odd maxm \<and> 1 \<le> maxm \<and>
           P_tab T = 1 # primes_upto (nat maxp) \<and> MAXP T = nat maxp \<and> MAXM T = nat maxm \<and>
           fold_opt (odd_step (1 # primes_upto (nat maxp))) (down_by2 (nat maxm))
             ([PP 0 0], sieve_M (nat maxm) (1 # primes_upto (nat maxp))) = Some (F1, M1) \<and>
           fold_opt even_step (down_by2 (nat maxm - 1)) (F1 @ [PP 0 0], M1[1 := length F1])
             = Some (F_tab T, M_tab T) \<and>
           PI_tab T = build_PI (nat maxp) (primes_upto (nat maxp)) \<and>
           MAXPI T = length (primes_upto (nat maxp))"
proof -
  define maxm where "maxm = (if even maxm0 then maxm0 + 1 else maxm0)"
  have od: "odd maxm" by (simp add: maxm_def)
  have c: "maxm \<le> MAXM0" "maxm mod 2 ^ 64 < ((maxp mod 2 ^ 64) * (maxp mod 2 ^ 64)) mod 2 ^ 64"
    "- 1 \<le> maxp" "0 \<le> maxm"
    using assms unfolding egs_setup_def Let_def maxm_def[symmetric]
    by (auto split: if_splits)
  have m1: "1 \<le> maxm" using od c(4) by (cases "maxm = 0") auto
  have mm: "maxm mod 2 ^ 64 = maxm" using c(1,4) by (simp add: MAXM0_def)
  have p2: "2 \<le> maxp"
  proof (rule ccontr)
    assume "\<not> 2 \<le> maxp"
    then consider "maxp = - 1" | "maxp = 0" | "maxp = 1" using c(3) by linarith
    then show False using c(2) m1 unfolding mm by cases simp_all
  qed
  obtain F1 M1 F2 M2 where
    a: "fold_opt (odd_step (1 # primes_upto (nat maxp))) (down_by2 (nat maxm))
             ([PP 0 0], sieve_M (nat maxm) (1 # primes_upto (nat maxp))) = Some (F1, M1)"
    and b: "fold_opt even_step (down_by2 (nat maxm - 1)) (F1 @ [PP 0 0], M1[1 := length F1])
             = Some (F2, M2)"
    and T: "T = \<lparr>P_tab = 1 # primes_upto (nat maxp),
                 PI_tab = build_PI (nat maxp) (primes_upto (nat maxp)), F_tab = F2, M_tab = M2,
                 MAXP = nat maxp, MAXPI = length (primes_upto (nat maxp)), MAXM = nat maxm\<rparr>"
    using assms unfolding egs_setup_def Let_def maxm_def[symmetric]
    by (auto split: if_splits option.splits)
  show ?thesis using od m1 p2 a b unfolding T by auto
qed

text \<open>
  C1.  When \<^verbatim>\<open>setup(maxp, maxm)\<close> completes, for every \<open>m\<close> from 1 to \<^verbatim>\<open>MAXM\<close> the entry
  \<^verbatim>\<open>M[m]\<close> is nonzero exactly if every prime factor of \<open>m\<close> is at most \<^verbatim>\<open>MAXP\<close>, and then
  the product of the prime powers \<^verbatim>\<open>P[pi]^e\<close> of the factorization at \<^verbatim>\<open>F + M[m]\<close> is \<open>m\<close>.
\<close>

theorem setup_tables_correct:
  assumes "egs_setup maxp maxm = Some T" and "1 \<le> m" and "m \<le> MAXM T"
  shows "(M_tab T ! m \<noteq> 0 \<longleftrightarrow> (\<forall>p. is_prime p \<and> p dvd m \<longrightarrow> p \<le> MAXP T)) \<and>
         (M_tab T ! m \<noteq> 0 \<longrightarrow> fact_value (P_tab T) (fact_at (F_tab T) (M_tab T ! m)) = m)"
proof -
  obtain mx F1 M1 where d: "2 \<le> maxp" "odd mx" "1 \<le> mx"
    "P_tab T = 1 # primes_upto (nat maxp)" "MAXP T = nat maxp" "MAXM T = nat mx"
    "fold_opt (odd_step (1 # primes_upto (nat maxp))) (down_by2 (nat mx))
             ([PP 0 0], sieve_M (nat mx) (1 # primes_upto (nat maxp))) = Some (F1, M1)"
    "fold_opt even_step (down_by2 (nat mx - 1)) (F1 @ [PP 0 0], M1[1 := length F1])
             = Some (F_tab T, M_tab T)"
    using egs_setup_D[OF assms(1)] by blast
  define B where "B = nat maxp"
  define K where "K = nat mx"
  define P where "P = 1 # primes_upto B"
  define M0 where "M0 = sieve_M K P"
  have S: "sieve_ok P B K M0" unfolding P_def M0_def by (rule sieve_M_ok)
  have B2: "2 \<le> B" using d(1) by (simp add: B_def)
  have K1: "odd K" "1 \<le> K" using d(2,3) by (simp_all add: K_def even_nat_iff)
  have odd_run: "fold_opt (odd_step P) (down_by2 K) ([PP 0 0], M0) = Some (F1, M1)"
    using d(7) by (simp add: P_def M0_def B_def K_def)
  have o: "length M1 = Suc K \<and> 1 \<le> length F1 \<and>
           (\<forall>q. odd q \<and> 1 < q \<and> q \<le> K \<longrightarrow> entry_ok P B F1 M1 q)"
  proof (rule odd_loop_ok[OF S odd_run K1(1)])
    show "K \<le> K" by simp
    show "length M0 = Suc K" unfolding M0_def P_def by (rule sieve_M_length)
    show "\<forall>q. 1 \<le> q \<and> q \<le> K \<longrightarrow> M0 ! q = M0 ! q" by simp
    show "1 \<le> length [PP 0 0]" by simp
    show "\<forall>q. odd q \<and> K < q \<and> q \<le> K \<longrightarrow> entry_ok P B [PP 0 0] M0 q" by auto
  qed
  have even_run: "fold_opt even_step (down_by2 (K - 1)) (F1 @ [PP 0 0], M1[1 := length F1])
                    = Some (F_tab T, M_tab T)"
    using d(8) by (simp add: K_def)
  have one: "entry_ok P B (F1 @ [PP 0 0]) (M1[1 := length F1]) 1"
  proof -
    have "entry_ok P B (F1 @ [] @ PP 0 0 # []) (M1[1 := length F1]) 1"
      using o K1(2) by (intro entry_ok_new) (simp_all add: smooth_1[simplified] fact_value_Nil)
    then show ?thesis by simp
  qed
  have odds: "\<forall>q. odd q \<and> q \<le> K \<longrightarrow> entry_ok P B (F1 @ [PP 0 0]) (M1[1 := length F1]) q"
  proof (intro allI impI)
    fix q assume q: "odd q \<and> q \<le> K"
    show "entry_ok P B (F1 @ [PP 0 0]) (M1[1 := length F1]) q"
    proof (cases "q = 1")
      case True
      then show ?thesis using one by simp
    next
      case False
      then have "1 < q" using q by (cases "q = 0") auto
      then have "entry_ok P B F1 M1 q" using o q by simp
      then show ?thesis using False by (simp add: entry_ok_append entry_ok_upd)
    qed
  qed
  have all: "\<forall>q. 1 \<le> q \<and> q \<le> K \<longrightarrow> entry_ok P B (F_tab T) (M_tab T) q"
  proof (rule even_loop_ok[OF _ B2 is_prime_2 even_run])
    show "P ! 1 = 2" unfolding P_def by (rule primes_upto_hd[OF B2])
    show "even (K - 1)" using K1 by simp
    show "K - 1 \<le> K" by simp
    show "length (M1[1 := length F1]) = Suc K" using o by simp
    show "\<forall>q. odd q \<and> q \<le> K \<longrightarrow> entry_ok P B (F1 @ [PP 0 0]) (M1[1 := length F1]) q"
      by (rule odds)
    show "1 \<le> length (F1 @ [PP 0 0])" by simp
    show "\<forall>q. even q \<and> K - 1 < q \<and> q \<le> K \<longrightarrow> entry_ok P B (F1 @ [PP 0 0]) (M1[1 := length F1]) q"
      using K1(1) by (metis Suc_diff_1 Suc_leI le_antisym less_eq_Suc_le odd_pos)
  qed
  have "entry_ok (P_tab T) (MAXP T) (F_tab T) (M_tab T) m"
    using all assms(2,3) d(4,5,6) by (simp add: P_def B_def K_def)
  then show ?thesis by (simp add: entry_ok_def smooth_def)
qed

theorem setup_tables_witness:
  "egs_setup 8 21 = Some tabs_8_21 \<and> (1::nat) \<le> 12 \<and> 12 \<le> MAXM tabs_8_21 \<and>
   M_tab tabs_8_21 ! 12 \<noteq> 0 \<and>
   fact_at (F_tab tabs_8_21) (M_tab tabs_8_21 ! 12) = [PP 2 1, PP 1 2] \<and>
   fact_value (P_tab tabs_8_21) (fact_at (F_tab tabs_8_21) (M_tab tabs_8_21 ! 12)) = 12 \<and>
   M_tab tabs_8_21 ! 11 = 0"
  using setup_tables_correct[OF setup_8_21, of 12] setup_8_21
  by (simp add: tabs_8_21_def fact_at_def fact_value_def)

section \<open>The count and the replay of a certificate\<close>

text \<open>
  The count \<open>cnt\<close> that \<^verbatim>\<open>tfac\<close> returns is the number of factors that its certificate stands
  for.  The proof follows \<open>cnt\<close> and the certificate through every loop of \<^verbatim>\<open>tfac\<close>; it needs
  that the tables of primes are right and that the iterator and the counting function
  agree on the primes.  The replay of the certificate by \<^verbatim>\<open>fac_verify\<close> starts from the
  exponents of the primes in \<open>N!\<close> and subtracts, item by item, what the items store.
\<close>

subsection \<open>Counting primes\<close>







subsection \<open>Reading correct tables\<close>



subsection \<open>The table of prime counts\<close>









subsection \<open>Appending an item\<close>







subsection \<open>The count in the first phase\<close>






subsection \<open>The count in the second phase\<close>











subsection \<open>Square roots\<close>

text \<open>
  \<open>isqrt\<close> is the integer square root, and the \<open>s\<close> of \<^verbatim>\<open>fac_s\<close> is at most one more than
  \<open>sqrt N\<close>: the primes below \<open>s\<close> are at most \<open>sqrt N\<close>.
\<close>

declare isqrt.simps [simp del]






subsection \<open>The table of primes\<close>






subsection \<open>The valuation of a factorial\<close>














subsection \<open>What the replay checks\<close>



subsection \<open>The count of the replay\<close>






subsection \<open>The valuations of the replay\<close>














subsection \<open>The items of the first phase\<close>


lemma hb_Some: "hb k v pmin \<Longrightarrow> v \<noteq> None"
  by (auto simp: hb_def)














subsection \<open>The items of the second phase\<close>















subsection \<open>What the items store\<close>
















subsection \<open>The whole run\<close>








end
